theory Spec2Isabelle
  imports Complex_Main
begin

section \<open>Data model of the trace cleanup solver\<close>

text \<open>
  The embedding follows \<^verbatim>\<open>src/lib/solvers/TraceCleanupSolver/TraceCleanupSolver.ts\<close>.
  Coordinates are JavaScript numbers; they are idealised as reals, so that
  \<^verbatim>\<open>Math.round\<close> is the floor of the value plus one half. A \<^verbatim>\<open>SolvedTracePath\<close>
  carries the three fields the solver reads.
\<close>

record Point =
  pt_x :: real
  pt_y :: real

record SolvedTracePath =
  mspPairId :: string
  globalConnNetId :: string
  tracePath :: "Point list"

record ('ip, 'lp) TraceCleanupSolverInput =
  inputProblem :: 'ip
  allTraces :: "SolvedTracePath list"
  allLabelPlacements :: "'lp list"
  mergedLabelNetIdMap :: "(string \<times> string list) list"
  paddingBuffer :: real

datatype PipelineStep = minimizing_turns | balancing_l_shapes | untangling_traces

text \<open>The only exception the class can raise by itself: a property read on \<^verbatim>\<open>undefined\<close>.\<close>

datatype error = TypeError

record Line =
  line_points :: "Point list"
  strokeColor :: string

record 'g GraphicsObject =
  lines :: "Line list option"
  points :: "'g list option"
  rects :: "'g list option"
  circles :: "'g list option"
  texts :: "'g list option"

record ('ip, 'lp, 's) TraceCleanupSolver =
  input :: "('ip, 'lp) TraceCleanupSolverInput"
  outputTraces :: "SolvedTracePath list"
  traceIdQueue :: "string list"
  tracesMap :: "(string \<times> SolvedTracePath) list"
  pipelineStep :: PipelineStep
  activeTraceId :: "string option"
  activeSubSolver :: "'s option"
  solved :: bool

text \<open>
  The collaborators whose code lies outside the file are parameters: the rectangle
  predicate, the two per-trace transforms, the untangle sub-solver (its constructor, its
  \<^verbatim>\<open>step()\<close>, its \<^verbatim>\<open>solved\<close> and \<^verbatim>\<open>failed\<close> flags, \<^verbatim>\<open>getOutput().traces\<close> and
  \<^verbatim>\<open>visualize()\<close>, which may change the sub-solver) and the input-problem renderer.
  They are taken as total functions.
\<close>

record ('ip, 'lp, 's, 'g) collaborators =
  is4PointRectangle :: "Point list \<Rightarrow> bool"
  minimizeTurnsWithFilteredLabels ::
    "('ip, 'lp) TraceCleanupSolverInput \<Rightarrow> string \<Rightarrow> SolvedTracePath list \<Rightarrow> SolvedTracePath"
  balanceZShapes ::
    "('ip, 'lp) TraceCleanupSolverInput \<Rightarrow> string \<Rightarrow> SolvedTracePath list \<Rightarrow> SolvedTracePath"
  UntangleTraceSubsolver_new :: "('ip, 'lp) TraceCleanupSolverInput \<Rightarrow> 's"
  subsolver_step :: "'s \<Rightarrow> 's"
  subsolver_solved :: "'s \<Rightarrow> bool"
  subsolver_failed :: "'s \<Rightarrow> bool"
  subsolver_getOutput :: "'s \<Rightarrow> SolvedTracePath list"
  subsolver_visualize :: "'s \<Rightarrow> 'g GraphicsObject \<times> 's"
  visualizeInputProblem :: "'ip \<Rightarrow> 'g GraphicsObject"

section \<open>JavaScript maps, in insertion order\<close>

text \<open>
  A \<^verbatim>\<open>Map\<close> keeps its keys in the order of their first insertion; setting a key that is
  present replaces the value in place. \<^verbatim>\<open>new Map(entries)\<close> sets the entries one by one.
\<close>

fun Map_get :: "('k \<times> 'v) list \<Rightarrow> 'k \<Rightarrow> 'v option" where
  "Map_get [] k = None"
| "Map_get ((k', v) # m) k = (if k' = k then Some v else Map_get m k)"

fun Map_set :: "('k \<times> 'v) list \<Rightarrow> 'k \<Rightarrow> 'v \<Rightarrow> ('k \<times> 'v) list" where
  "Map_set [] k v = [(k, v)]"
| "Map_set ((k', v') # m) k v = (if k' = k then (k, v) # m else (k', v') # Map_set m k v)"

definition Map_values :: "('k \<times> 'v) list \<Rightarrow> 'v list" where
  "Map_values m = map snd m"

definition Map_keys :: "('k \<times> 'v) list \<Rightarrow> 'k list" where
  "Map_keys m = map fst m"

fun Map_fill :: "('k \<times> 'v) list \<Rightarrow> ('k \<times> 'v) list \<Rightarrow> ('k \<times> 'v) list" where
  "Map_fill m [] = m"
| "Map_fill m ((k, v) # es) = Map_fill (Map_set m k v) es"

definition Map_new :: "('k \<times> 'v) list \<Rightarrow> ('k \<times> 'v) list" where
  "Map_new es = Map_fill [] es"

section \<open>Numbers in template strings\<close>

text \<open>
  The merge keys of the visualization accessor are template strings that end in a rounded
  coordinate. An integral number prints in decimal, with a minus sign when negative;
  the exponent notation that JavaScript uses from \<open>10\<^sup>2\<^sup>1\<close> on, and the rounding
  of the product in double precision, are outside this idealisation.
\<close>

definition Math_round :: "real \<Rightarrow> int" where
  "Math_round r = \<lfloor>r + 1 / 2\<rfloor>"

definition digit_char :: "nat \<Rightarrow> char" where
  "digit_char d = ''0123456789'' ! d"

fun nat_to_string :: "nat \<Rightarrow> string" where
  "nat_to_string n =
     (if n < 10 then [digit_char n] else nat_to_string (n div 10) @ [digit_char (n mod 10)])"

declare nat_to_string.simps [simp del]

definition int_to_string :: "int \<Rightarrow> string" where
  "int_to_string i = (if i < 0 then CHR ''-'' # nat_to_string (nat (- i)) else nat_to_string (nat i))"

section \<open>The controller\<close>

text \<open>
  Every function of the controller returns, beside the new state, the list of the actions
  the call performed, in order: a step of the sub-solver, its retirement (with or without
  adoption of its traces), the creation of the sub-solver, the reseeding of the queue, the
  setting of the solved flag, the removal of an identifier from the queue, and a call of
  a transform. The list is an observation only: no function reads it.
\<close>

datatype action =
    SubSolverStep
  | SubSolverRetired bool
  | SubSolverInstantiation
  | QueueReseed
  | SolvedFlagSet
  | TracePopped PipelineStep string
  | TransformApplication PipelineStep string

type_synonym ('ip, 'lp, 's) outcome = "error + (action list \<times> ('ip, 'lp, 's) TraceCleanupSolver)"

definition entries_of :: "SolvedTracePath list \<Rightarrow> (string \<times> SolvedTracePath) list" where
  "entries_of ts = map (\<lambda>t. (mspPairId t, t)) ts"

definition TraceCleanupSolver_new ::
  "('ip, 'lp) TraceCleanupSolverInput \<Rightarrow> ('ip, 'lp, 's) TraceCleanupSolver" where
  "TraceCleanupSolver_new solverInput =
     \<lparr> input = solverInput,
       outputTraces = allTraces solverInput,
       traceIdQueue = map mspPairId (allTraces solverInput),
       tracesMap = Map_new (entries_of (allTraces solverInput)),
       pipelineStep = untangling_traces,
       activeTraceId = None,
       activeSubSolver = None,
       solved = False \<rparr>"

definition runUntangleTracesStep ::
  "('ip, 'lp, 's, 'g) collaborators \<Rightarrow> ('ip, 'lp, 's) TraceCleanupSolver
     \<Rightarrow> ('ip, 'lp, 's) outcome" where
  "runUntangleTracesStep env s =
     Inr ([SubSolverInstantiation],
          s\<lparr>activeSubSolver :=
              Some (UntangleTraceSubsolver_new env
                      ((input s)\<lparr>allTraces := Map_values (tracesMap s)\<rparr>))\<rparr>)"

definition processTrace ::
  "('ip, 'lp, 's, 'g) collaborators \<Rightarrow> PipelineStep \<Rightarrow> ('ip, 'lp, 's) TraceCleanupSolver
     \<Rightarrow> ('ip, 'lp, 's) outcome" where
  "processTrace env step s =
     (case traceIdQueue s of
        [] \<Rightarrow> Inl TypeError
      | targetMspConnectionPairId # rest \<Rightarrow>
          (let s1 = s\<lparr>traceIdQueue := rest, activeTraceId := Some targetMspConnectionPairId\<rparr> in
           case Map_get (tracesMap s1) targetMspConnectionPairId of
             None \<Rightarrow> Inl TypeError
           | Some originalTrace \<Rightarrow>
               if is4PointRectangle env (tracePath originalTrace)
               then Inr ([TracePopped step targetMspConnectionPairId], s1)
               else
                 (let traces = Map_values (tracesMap s1);
                      updatedTrace =
                        (if step = minimizing_turns
                         then minimizeTurnsWithFilteredLabels env (input s1)
                                targetMspConnectionPairId traces
                         else balanceZShapes env (input s1) targetMspConnectionPairId traces);
                      m = Map_set (tracesMap s1) targetMspConnectionPairId updatedTrace
                  in Inr ([TracePopped step targetMspConnectionPairId,
                           TransformApplication step targetMspConnectionPairId],
                          s1\<lparr>tracesMap := m, outputTraces := Map_values m\<rparr>))))"

definition runMinimizeTurnsStep ::
  "('ip, 'lp, 's, 'g) collaborators \<Rightarrow> ('ip, 'lp, 's) TraceCleanupSolver
     \<Rightarrow> ('ip, 'lp, 's) outcome" where
  "runMinimizeTurnsStep env s =
     (if length (traceIdQueue s) = 0
      then Inr ([QueueReseed],
                s\<lparr>pipelineStep := balancing_l_shapes,
                  traceIdQueue := map mspPairId (allTraces (input s))\<rparr>)
      else processTrace env minimizing_turns s)"

definition runBalanceLShapesStep ::
  "('ip, 'lp, 's, 'g) collaborators \<Rightarrow> ('ip, 'lp, 's) TraceCleanupSolver
     \<Rightarrow> ('ip, 'lp, 's) outcome" where
  "runBalanceLShapesStep env s =
     (if length (traceIdQueue s) = 0
      then Inr ([SolvedFlagSet], s\<lparr>solved := True\<rparr>)
      else processTrace env balancing_l_shapes s)"

definition TraceCleanupSolver_step ::
  "('ip, 'lp, 's, 'g) collaborators \<Rightarrow> ('ip, 'lp, 's) TraceCleanupSolver
     \<Rightarrow> ('ip, 'lp, 's) outcome" where
  "TraceCleanupSolver_step env s =
     (case activeSubSolver s of
        Some sub \<Rightarrow>
          (let sub' = subsolver_step env sub in
           if subsolver_solved env sub'
           then
             (let output = subsolver_getOutput env sub' in
              Inr ([SubSolverStep, SubSolverRetired True],
                   s\<lparr>outputTraces := output,
                     tracesMap := Map_new (entries_of output),
                     activeSubSolver := None,
                     pipelineStep := minimizing_turns\<rparr>))
           else if subsolver_failed env sub'
           then Inr ([SubSolverStep, SubSolverRetired False],
                     s\<lparr>activeSubSolver := None, pipelineStep := minimizing_turns\<rparr>)
           else Inr ([SubSolverStep], s\<lparr>activeSubSolver := Some sub'\<rparr>))
      | None \<Rightarrow>
          (case pipelineStep s of
             untangling_traces \<Rightarrow> runUntangleTracesStep env s
           | minimizing_turns \<Rightarrow> runMinimizeTurnsStep env s
           | balancing_l_shapes \<Rightarrow> runBalanceLShapesStep env s))"

definition getOutput :: "('ip, 'lp, 's) TraceCleanupSolver \<Rightarrow> SolvedTracePath list" where
  "getOutput s = outputTraces s"

text \<open>
  Calling the step function \<open>n\<close> times; an exception ends the run. The function iterated
  is \<^verbatim>\<open>_step\<close>, the body that the base class's \<^verbatim>\<open>step()\<close> runs on each call; the
  sub-solver's \<^verbatim>\<open>step()\<close> is the collaborator \<open>subsolver_step\<close>.
\<close>

fun run ::
  "('ip, 'lp, 's, 'g) collaborators \<Rightarrow> nat \<Rightarrow> ('ip, 'lp, 's) TraceCleanupSolver
     \<Rightarrow> ('ip, 'lp, 's) outcome" where
  "run env 0 s = Inr ([], s)"
| "run env (Suc n) s =
     (case TraceCleanupSolver_step env s of
        Inl e \<Rightarrow> Inl e
      | Inr (ws, s') \<Rightarrow>
          (case run env n s' of
             Inl e \<Rightarrow> Inl e
           | Inr (ws', s'') \<Rightarrow> Inr (ws @ ws', s'')))"

section \<open>The visualization accessor\<close>

text \<open>
  The accessor hands over to an active sub-solver. Otherwise it draws one line per output
  trace and then runs two merge passes over the output traces, each of which assigns the
  merged traces to \<^verbatim>\<open>outputTraces\<close>. The key of the first loop reads the first point of
  the trace, the key of the second its first and last point; reading a point of an empty
  path is a property read on \<^verbatim>\<open>undefined\<close>, which raises.
\<close>

definition firstKey :: "SolvedTracePath \<Rightarrow> error + string" where
  "firstKey trace =
     (case tracePath trace of
        [] \<Rightarrow> Inl TypeError
      | p # _ \<Rightarrow> Inr (globalConnNetId trace @ ''-'' @ int_to_string (Math_round (pt_y p * 100))))"

definition secondKey :: "SolvedTracePath \<Rightarrow> error + string" where
  "secondKey trace =
     (case tracePath trace of
        [] \<Rightarrow> Inl TypeError
      | p # _ \<Rightarrow>
          (let isHorizontal = (pt_y p = pt_y (last (tracePath trace))) in
           Inr (if isHorizontal
                then globalConnNetId trace @ ''-y'' @ int_to_string (Math_round (pt_y p * 100))
                else globalConnNetId trace @ ''-x'' @ int_to_string (Math_round (pt_x p * 100)))))"

text \<open>
  One merge loop: a trace whose key is present extends the stored copy by its own path
  without the first point; otherwise a copy of the trace is stored under the key.
\<close>

fun mergeLoop ::
  "(SolvedTracePath \<Rightarrow> error + string) \<Rightarrow> SolvedTracePath list
     \<Rightarrow> (string \<times> SolvedTracePath) list \<Rightarrow> error + (string \<times> SolvedTracePath) list" where
  "mergeLoop key [] m = Inr m"
| "mergeLoop key (trace # ts) m =
     (case key trace of
        Inl e \<Rightarrow> Inl e
      | Inr k \<Rightarrow>
          (case Map_get m k of
             Some existing \<Rightarrow>
               mergeLoop key ts
                 (Map_set m k (existing\<lparr>tracePath := tracePath existing @ drop 1 (tracePath trace)\<rparr>))
           | None \<Rightarrow> mergeLoop key ts (Map_set m k trace)))"

definition traceLine :: "string option \<Rightarrow> SolvedTracePath \<Rightarrow> Line" where
  "traceLine active trace =
     \<lparr> line_points = map (\<lambda>p. \<lparr>pt_x = pt_x p, pt_y = pt_y p\<rparr>) (tracePath trace),
       strokeColor = (if Some (mspPairId trace) = active then ''red'' else ''blue'') \<rparr>"

definition orEmpty :: "'a list option \<Rightarrow> 'a list" where
  "orEmpty layer = (case layer of None \<Rightarrow> [] | Some l \<Rightarrow> l)"

definition visualize ::
  "('ip, 'lp, 's, 'g) collaborators \<Rightarrow> ('ip, 'lp, 's) TraceCleanupSolver
     \<Rightarrow> error + ('g GraphicsObject \<times> ('ip, 'lp, 's) TraceCleanupSolver)" where
  "visualize env s =
     (case activeSubSolver s of
        Some sub \<Rightarrow>
          (let (g, sub') = subsolver_visualize env sub in Inr (g, s\<lparr>activeSubSolver := Some sub'\<rparr>))
      | None \<Rightarrow>
          (let g0 = visualizeInputProblem env (inputProblem (input s));
               g1 = g0\<lparr>lines := Some (orEmpty (lines g0)), points := Some (orEmpty (points g0)),
                       rects := Some (orEmpty (rects g0)), circles := Some (orEmpty (circles g0)),
                       texts := Some (orEmpty (texts g0))\<rparr>;
               graphics = g1\<lparr>lines :=
                             Some (orEmpty (lines g1)
                                   @ map (traceLine (activeTraceId s)) (outputTraces s))\<rparr>
           in case mergeLoop firstKey (outputTraces s) [] of
                Inl e \<Rightarrow> Inl e
              | Inr mergedTraces \<Rightarrow>
                  (case mergeLoop secondKey (Map_values mergedTraces) [] of
                     Inl e \<Rightarrow> Inl e
                   | Inr merged \<Rightarrow> Inr (graphics, s\<lparr>outputTraces := Map_values merged\<rparr>))))"

section \<open>Observations on the actions of a run\<close>

text \<open>The identifiers removed from the queue, and those handed to a transform, in a phase.\<close>

fun popped_ids :: "PipelineStep \<Rightarrow> action list \<Rightarrow> string list" where
  "popped_ids p [] = []"
| "popped_ids p (TracePopped p' i # ws) = (if p' = p then i # popped_ids p ws else popped_ids p ws)"
| "popped_ids p (_ # ws) = popped_ids p ws"

fun transformed_ids :: "PipelineStep \<Rightarrow> action list \<Rightarrow> string list" where
  "transformed_ids p [] = []"
| "transformed_ids p (TransformApplication p' i # ws) =
     (if p' = p then i # transformed_ids p ws else transformed_ids p ws)"
| "transformed_ids p (_ # ws) = transformed_ids p ws"

text \<open>
  The units of work: a step of the sub-solver, a call of a transform, and the three
  bookkeeping actions at a phase boundary.
\<close>

fun is_unit_of_work :: "action \<Rightarrow> bool" where
  "is_unit_of_work SubSolverStep = True"
| "is_unit_of_work (TransformApplication p i) = True"
| "is_unit_of_work SubSolverInstantiation = True"
| "is_unit_of_work QueueReseed = True"
| "is_unit_of_work SolvedFlagSet = True"
| "is_unit_of_work (SubSolverRetired b) = False"
| "is_unit_of_work (TracePopped p i) = False"

definition units_of_work :: "action list \<Rightarrow> nat" where
  "units_of_work ws = length (filter is_unit_of_work ws)"

fun phase_rank :: "PipelineStep \<Rightarrow> nat" where
  "phase_rank untangling_traces = 0"
| "phase_rank minimizing_turns = 1"
| "phase_rank balancing_l_shapes = 2"

text \<open>
  The bookkeeping of a run that started at the constructor: which identifiers each phase
  has removed from the queue so far, and what is left in the queue.
\<close>

definition roster :: "('ip, 'lp) TraceCleanupSolverInput \<Rightarrow> string list" where
  "roster solverInput = map mspPairId (allTraces solverInput)"

definition pipeline_inv ::
  "('ip, 'lp) TraceCleanupSolverInput \<Rightarrow> action list \<Rightarrow> ('ip, 'lp, 's) TraceCleanupSolver \<Rightarrow> bool" where
  "pipeline_inv solverInput ws s \<longleftrightarrow>
     input s = solverInput \<and> popped_ids untangling_traces ws = [] \<and>
     (case pipelineStep s of
        untangling_traces \<Rightarrow>
          popped_ids minimizing_turns ws = [] \<and> popped_ids balancing_l_shapes ws = [] \<and>
          traceIdQueue s = roster solverInput \<and> \<not> solved s
      | minimizing_turns \<Rightarrow>
          activeSubSolver s = None \<and>
          popped_ids minimizing_turns ws @ traceIdQueue s = roster solverInput \<and>
          popped_ids balancing_l_shapes ws = [] \<and> \<not> solved s
      | balancing_l_shapes \<Rightarrow>
          activeSubSolver s = None \<and>
          popped_ids minimizing_turns ws = roster solverInput \<and>
          popped_ids balancing_l_shapes ws @ traceIdQueue s = roster solverInput \<and>
          (solved s \<longrightarrow> traceIdQueue s = []))"

text \<open>
  The sub-solver as the first step creates it, and its state after \<open>j\<close> of its own steps.
\<close>

definition initial_subsolver ::
  "('ip, 'lp, 's, 'g) collaborators \<Rightarrow> ('ip, 'lp) TraceCleanupSolverInput \<Rightarrow> 's" where
  "initial_subsolver env solverInput =
     UntangleTraceSubsolver_new env
       (solverInput\<lparr>allTraces := Map_values (Map_new (entries_of (allTraces solverInput)))\<rparr>)"

definition subsolver_after ::
  "('ip, 'lp, 's, 'g) collaborators \<Rightarrow> nat \<Rightarrow> 's \<Rightarrow> 's" where
  "subsolver_after env j u = (subsolver_step env ^^ j) u"

section \<open>Concrete collaborators and inputs\<close>

text \<open>
  Modelled from the spec: the rectangle predicate \<^verbatim>\<open>./is4PointRectangle\<close> is not among the
  sources; the spec gives it as "is this polyline an axis-aligned 4-point rectangle?".
  The four points are three axis-aligned sides, alternating in direction, whose open
  ends face each other, so that the fourth side is axis-aligned too.
  It is used for concrete runs only; every general statement takes the predicate as a
  parameter.
\<close>

definition is4PointRectangle_spec :: "Point list \<Rightarrow> bool" where
  "is4PointRectangle_spec path =
     (case path of
        [p0, p1, p2, p3] \<Rightarrow>
          (pt_x p0 = pt_x p1 \<and> pt_y p1 = pt_y p2 \<and> pt_x p2 = pt_x p3 \<and> pt_y p0 = pt_y p3) \<or>
          (pt_y p0 = pt_y p1 \<and> pt_x p1 = pt_x p2 \<and> pt_y p2 = pt_y p3 \<and> pt_x p0 = pt_x p3)
      | _ \<Rightarrow> False)"

definition pt :: "real \<Rightarrow> real \<Rightarrow> Point" where
  "pt a b = \<lparr>pt_x = a, pt_y = b\<rparr>"

definition no_graphics :: "unit GraphicsObject" where
  "no_graphics = \<lparr>lines = None, points = None, rects = None, circles = None, texts = None\<rparr>"

text \<open>A stand-in transform: it keeps the first two points of the target trace.\<close>

definition first_segment :: "string \<Rightarrow> SolvedTracePath list \<Rightarrow> SolvedTracePath" where
  "first_segment i ts =
     (case find (\<lambda>t. mspPairId t = i) ts of
        None \<Rightarrow> \<lparr>mspPairId = i, globalConnNetId = [], tracePath = []\<rparr>
      | Some t \<Rightarrow> t\<lparr>tracePath := take 2 (tracePath t)\<rparr>)"

text \<open>
  A stand-in sub-solver: it counts its steps and holds the traces it was built from; when
  it is solved, when it is failed and what it returns are parameters.
\<close>

definition scenario_collaborators ::
  "(nat \<Rightarrow> bool) \<Rightarrow> (nat \<Rightarrow> bool) \<Rightarrow> (SolvedTracePath list \<Rightarrow> SolvedTracePath list)
     \<Rightarrow> (unit, unit, nat \<times> SolvedTracePath list, unit) collaborators" where
  "scenario_collaborators solvedAt failedAt out =
     \<lparr> is4PointRectangle = is4PointRectangle_spec,
       minimizeTurnsWithFilteredLabels = (\<lambda>inp i ts. first_segment i ts),
       balanceZShapes = (\<lambda>inp i ts. first_segment i ts),
       UntangleTraceSubsolver_new = (\<lambda>inp. (0, allTraces inp)),
       subsolver_step = (\<lambda>u. (Suc (fst u), snd u)),
       subsolver_solved = (\<lambda>u. solvedAt (fst u)),
       subsolver_failed = (\<lambda>u. failedAt (fst u)),
       subsolver_getOutput = (\<lambda>u. out (snd u)),
       subsolver_visualize = (\<lambda>u. (no_graphics, u)),
       visualizeInputProblem = (\<lambda>ip. no_graphics) \<rparr>"

definition failing_collaborators :: "(unit, unit, nat \<times> SolvedTracePath list, unit) collaborators" where
  "failing_collaborators = scenario_collaborators (\<lambda>n. False) (\<lambda>n. True) (\<lambda>ts. ts)"

definition solving_collaborators :: "(unit, unit, nat \<times> SolvedTracePath list, unit) collaborators" where
  "solving_collaborators = scenario_collaborators (\<lambda>n. 2 \<le> n) (\<lambda>n. False) (\<lambda>ts. ts)"

definition dropping_collaborators :: "(unit, unit, nat \<times> SolvedTracePath list, unit) collaborators" where
  "dropping_collaborators = scenario_collaborators (\<lambda>n. True) (\<lambda>n. False) (\<lambda>ts. [])"

definition reordering_collaborators :: "(unit, unit, nat \<times> SolvedTracePath list, unit) collaborators" where
  "reordering_collaborators = scenario_collaborators (\<lambda>n. True) (\<lambda>n. False) rev"

text \<open>A sub-solver that is solved at once and returns every trace cut to its first two points.\<close>

definition truncating_collaborators :: "(unit, unit, nat \<times> SolvedTracePath list, unit) collaborators" where
  "truncating_collaborators =
     scenario_collaborators (\<lambda>n. True) (\<lambda>n. False)
       (map (\<lambda>t. t\<lparr>tracePath := take 2 (tracePath t)\<rparr>))"

text \<open>The scenario of the spec: a 4-point rectangle and an 8-point zig-zag.\<close>

definition rectangle_trace :: SolvedTracePath where
  "rectangle_trace =
     \<lparr>mspPairId = ''r'', globalConnNetId = ''n1'',
      tracePath = [pt 0 0, pt 0 10, pt 10 10, pt 10 0]\<rparr>"

definition zigzag_trace :: SolvedTracePath where
  "zigzag_trace =
     \<lparr>mspPairId = ''z'', globalConnNetId = ''n2'',
      tracePath = [pt 0 20, pt 5 20, pt 5 25, pt 10 25, pt 10 30, pt 15 30, pt 15 35, pt 20 35]\<rparr>"

definition scenario_input :: "(unit, unit) TraceCleanupSolverInput" where
  "scenario_input =
     \<lparr>inputProblem = (), allTraces = [rectangle_trace, zigzag_trace],
      allLabelPlacements = [], mergedLabelNetIdMap = [], paddingBuffer = 1\<rparr>"

definition scenario_start :: "(unit, unit, nat \<times> SolvedTracePath list) TraceCleanupSolver" where
  "scenario_start = TraceCleanupSolver_new scenario_input"

text \<open>The scenario at the start of the minimizing phase: the rectangle heads the queue.\<close>

definition minimizing_start :: "(unit, unit, nat \<times> SolvedTracePath list) TraceCleanupSolver" where
  "minimizing_start = (TraceCleanupSolver_new scenario_input)\<lparr>pipelineStep := minimizing_turns\<rparr>"

text \<open>Two traces of one net that start at the same height, and a trace with no point.\<close>

definition left_trace :: SolvedTracePath where
  "left_trace = \<lparr>mspPairId = ''a'', globalConnNetId = ''n'', tracePath = [pt 0 0, pt 1 0]\<rparr>"

definition right_trace :: SolvedTracePath where
  "right_trace = \<lparr>mspPairId = ''b'', globalConnNetId = ''n'', tracePath = [pt 1 0, pt 2 0]\<rparr>"

definition collinear_input :: "(unit, unit) TraceCleanupSolverInput" where
  "collinear_input =
     \<lparr>inputProblem = (), allTraces = [left_trace, right_trace],
      allLabelPlacements = [], mergedLabelNetIdMap = [], paddingBuffer = 1\<rparr>"

definition collinear_start :: "(unit, unit, nat \<times> SolvedTracePath list) TraceCleanupSolver" where
  "collinear_start = TraceCleanupSolver_new collinear_input"

definition pointless_trace :: SolvedTracePath where
  "pointless_trace = \<lparr>mspPairId = ''e'', globalConnNetId = ''n'', tracePath = []\<rparr>"

definition pointless_input :: "(unit, unit) TraceCleanupSolverInput" where
  "pointless_input =
     \<lparr>inputProblem = (), allTraces = [left_trace, pointless_trace],
      allLabelPlacements = [], mergedLabelNetIdMap = [], paddingBuffer = 1\<rparr>"

text \<open>
  What identifier stability says of a state: the output traces and the map carry exactly
  the identifiers of the input, and every map entry is filed under its own identifier.
\<close>

definition ids_stable ::
  "('ip, 'lp) TraceCleanupSolverInput \<Rightarrow> ('ip, 'lp, 's) TraceCleanupSolver \<Rightarrow> bool" where
  "ids_stable solverInput s \<longleftrightarrow>
     set (map mspPairId (outputTraces s)) = set (map mspPairId (allTraces solverInput)) \<and>
     set (Map_keys (tracesMap s)) = set (map mspPairId (allTraces solverInput)) \<and>
     map mspPairId (Map_values (tracesMap s)) = Map_keys (tracesMap s)"

definition pointless_start :: "(unit, unit, nat \<times> SolvedTracePath list) TraceCleanupSolver" where
  "pointless_start = TraceCleanupSolver_new pointless_input"

section \<open>Facts about maps\<close>

lemma Map_keys_simps [simp]: "Map_keys [] = []" "Map_keys ((k, v) # m) = k # Map_keys m"
  by (simp_all add: Map_keys_def)

lemma Map_values_simps [simp]: "Map_values [] = []" "Map_values ((k, v) # m) = v # Map_values m"
  by (simp_all add: Map_values_def)

lemma Map_get_set: "Map_get (Map_set m k v) k' = (if k' = k then Some v else Map_get m k')"
  by (induction m) auto

lemma Map_get_None_iff: "Map_get m k = None \<longleftrightarrow> k \<notin> set (Map_keys m)"
  by (induction m) (auto split: if_splits)

lemma Map_keys_set_present: "k \<in> set (Map_keys m) \<Longrightarrow> Map_keys (Map_set m k v) = Map_keys m"
  by (induction m) auto

lemma Map_keys_set: "set (Map_keys (Map_set m k v)) = insert k (set (Map_keys m))"
  by (induction m) (auto split: if_splits)

lemma Map_keys_fill: "set (Map_keys (Map_fill m es)) = set (Map_keys m) \<union> fst ` set es"
  by (induction m es rule: Map_fill.induct) (auto simp: Map_keys_set)

lemma Map_keys_new: "set (Map_keys (Map_new (entries_of ts))) = mspPairId ` set ts"
  by (simp add: Map_new_def Map_keys_fill entries_of_def image_image)

lemma Map_values_set_subset: "set (Map_values (Map_set m k v)) \<subseteq> insert v (set (Map_values m))"
  by (induction m) (auto split: if_splits)

lemma Map_get_in_values: "Map_get m k = Some v \<Longrightarrow> v \<in> set (Map_values m)"
  by (induction m) (auto split: if_splits)

section \<open>Facts about single steps and runs\<close>

lemma step_active:
  "activeSubSolver s = Some sub \<Longrightarrow>
   TraceCleanupSolver_step env s =
     (if subsolver_solved env (subsolver_step env sub)
      then Inr ([SubSolverStep, SubSolverRetired True],
                s\<lparr>outputTraces := subsolver_getOutput env (subsolver_step env sub),
                  tracesMap := Map_new (entries_of (subsolver_getOutput env (subsolver_step env sub))),
                  activeSubSolver := None,
                  pipelineStep := minimizing_turns\<rparr>)
      else if subsolver_failed env (subsolver_step env sub)
      then Inr ([SubSolverStep, SubSolverRetired False],
                s\<lparr>activeSubSolver := None, pipelineStep := minimizing_turns\<rparr>)
      else Inr ([SubSolverStep], s\<lparr>activeSubSolver := Some (subsolver_step env sub)\<rparr>))"
  by (simp add: TraceCleanupSolver_step_def Let_def)

lemma step_untangling:
  "activeSubSolver s = None \<Longrightarrow> pipelineStep s = untangling_traces \<Longrightarrow>
   TraceCleanupSolver_step env s = runUntangleTracesStep env s"
  by (simp add: TraceCleanupSolver_step_def)

lemma step_minimizing:
  "activeSubSolver s = None \<Longrightarrow> pipelineStep s = minimizing_turns \<Longrightarrow>
   TraceCleanupSolver_step env s = runMinimizeTurnsStep env s"
  by (simp add: TraceCleanupSolver_step_def)

lemma step_balancing:
  "activeSubSolver s = None \<Longrightarrow> pipelineStep s = balancing_l_shapes \<Longrightarrow>
   TraceCleanupSolver_step env s = runBalanceLShapesStep env s"
  by (simp add: TraceCleanupSolver_step_def)

text \<open>What a successful per-trace step looks like.\<close>

lemma processTrace_Inr:
  assumes "processTrace env p s = Inr (ws, s')"
  obtains i q t where "traceIdQueue s = i # q" "Map_get (tracesMap s) i = Some t"
    "is4PointRectangle env (tracePath t)" "ws = [TracePopped p i]"
    "s' = s\<lparr>traceIdQueue := q, activeTraceId := Some i\<rparr>"
  | i q t u where "traceIdQueue s = i # q" "Map_get (tracesMap s) i = Some t"
    "\<not> is4PointRectangle env (tracePath t)"
    "ws = [TracePopped p i, TransformApplication p i]"
    "s' = s\<lparr>traceIdQueue := q, activeTraceId := Some i,
            tracesMap := Map_set (tracesMap s) i u,
            outputTraces := Map_values (Map_set (tracesMap s) i u)\<rparr>"
    "u = (if p = minimizing_turns
          then minimizeTurnsWithFilteredLabels env (input s) i (Map_values (tracesMap s))
          else balanceZShapes env (input s) i (Map_values (tracesMap s)))"
  using assms
  by (auto simp: processTrace_def Let_def split: list.splits option.splits if_splits)

lemma processTrace_present:
  assumes "traceIdQueue s = i # q" "i \<in> set (Map_keys (tracesMap s))"
  shows "\<exists>ws s'. processTrace env p s = Inr (ws, s') \<and> traceIdQueue s' = q
           \<and> Map_keys (tracesMap s') = Map_keys (tracesMap s)
           \<and> pipelineStep s' = pipelineStep s \<and> activeSubSolver s' = activeSubSolver s
           \<and> input s' = input s \<and> solved s' = solved s"
proof -
  from assms(2) obtain t where t: "Map_get (tracesMap s) i = Some t"
    using Map_get_None_iff [of "tracesMap s" i] by (cases "Map_get (tracesMap s) i") auto
  show ?thesis
    using assms t by (simp add: processTrace_def Let_def Map_keys_set_present)
qed

lemma run_add:
  "run env (m + n) s =
     (case run env m s of
        Inl e \<Rightarrow> Inl e
      | Inr (ws, s') \<Rightarrow>
          (case run env n s' of Inl e \<Rightarrow> Inl e | Inr (ws', s'') \<Rightarrow> Inr (ws @ ws', s'')))"
  by (induction m arbitrary: s) (auto split: sum.splits prod.splits)

lemma run_1: "run env (Suc 0) s = TraceCleanupSolver_step env s"
  by (auto split: sum.splits)

lemma run_snoc_cases:
  assumes "run env (Suc n) s0 = Inr (ws, s)"
  obtains ws1 s1 ws2 where "run env n s0 = Inr (ws1, s1)"
    "TraceCleanupSolver_step env s1 = Inr (ws2, s)" "ws = ws1 @ ws2"
proof -
  have "run env (n + Suc 0) s0 = Inr (ws, s)" using assms by simp
  then show ?thesis
    unfolding run_add run_1 using that by (auto split: sum.splits prod.splits)
qed

text \<open>A property kept by every successful step holds after every successful run.\<close>

lemma run_invariant:
  assumes "run env n s0 = Inr (ws, s)"
    and "P [] s0"
    and "\<And>ws1 s1 ws2 s2. P ws1 s1 \<Longrightarrow> TraceCleanupSolver_step env s1 = Inr (ws2, s2) \<Longrightarrow> P (ws1 @ ws2) s2"
  shows "P ws s"
  using assms(1)
proof (induction n arbitrary: ws s)
  case 0
  then show ?case using assms(2) by simp
next
  case (Suc n)
  from Suc.prems obtain ws1 s1 ws2 where r: "run env n s0 = Inr (ws1, s1)"
    and st: "TraceCleanupSolver_step env s1 = Inr (ws2, s)" and ws: "ws = ws1 @ ws2"
    by (rule run_snoc_cases)
  from Suc.IH [OF r] have "P ws1 s1" .
  then show ?case using assms(3) st ws by simp
qed

section \<open>The bookkeeping invariant\<close>

lemma popped_ids_append [simp]: "popped_ids p (ws @ ws') = popped_ids p ws @ popped_ids p ws'"
  by (induction p ws rule: popped_ids.induct) auto

lemma transformed_ids_append [simp]:
  "transformed_ids p (ws @ ws') = transformed_ids p ws @ transformed_ids p ws'"
  by (induction p ws rule: transformed_ids.induct) auto

lemma pipeline_inv_new: "pipeline_inv solverInput [] (TraceCleanupSolver_new solverInput)"
  by (simp add: pipeline_inv_def TraceCleanupSolver_new_def roster_def)

lemma pipeline_inv_step:
  assumes inv: "pipeline_inv solverInput ws1 s1"
    and st: "TraceCleanupSolver_step env s1 = Inr (ws2, s2)"
  shows "pipeline_inv solverInput (ws1 @ ws2) s2"
proof (cases "activeSubSolver s1")
  case (Some sub)
  with inv have ph: "pipelineStep s1 = untangling_traces"
    by (cases "pipelineStep s1") (auto simp: pipeline_inv_def)
  from st inv ph show ?thesis
    unfolding step_active [OF Some]
    by (auto simp: pipeline_inv_def split: if_splits)
next
  case None
  show ?thesis
  proof (cases "pipelineStep s1")
    case untangling_traces
    with st inv None show ?thesis
      by (auto simp: step_untangling runUntangleTracesStep_def pipeline_inv_def)
  next
    case minimizing_turns
    show ?thesis
    proof (cases "traceIdQueue s1 = []")
      case True
      with st inv None minimizing_turns show ?thesis
        by (auto simp: step_minimizing runMinimizeTurnsStep_def pipeline_inv_def roster_def)
    next
      case False
      with st None minimizing_turns
      have "processTrace env minimizing_turns s1 = Inr (ws2, s2)"
        by (simp add: step_minimizing runMinimizeTurnsStep_def)
      then show ?thesis
        using inv minimizing_turns None
        by (elim processTrace_Inr) (auto simp: pipeline_inv_def)
    qed
  next
    case balancing_l_shapes
    show ?thesis
    proof (cases "traceIdQueue s1 = []")
      case True
      with st inv None balancing_l_shapes show ?thesis
        by (auto simp: step_balancing runBalanceLShapesStep_def pipeline_inv_def)
    next
      case False
      with st None balancing_l_shapes
      have "processTrace env balancing_l_shapes s1 = Inr (ws2, s2)"
        by (simp add: step_balancing runBalanceLShapesStep_def)
      then show ?thesis
        using inv balancing_l_shapes None False
        by (elim processTrace_Inr) (auto simp: pipeline_inv_def)
    qed
  qed
qed

lemma pipeline_inv_run:
  assumes "run env n (TraceCleanupSolver_new solverInput) = Inr (ws, s)"
  shows "pipeline_inv solverInput ws s"
  using assms pipeline_inv_new
  by (rule run_invariant) (rule pipeline_inv_step)


section \<open>Unfolding the definitions\<close>

lemmas scenario_defs =
  failing_collaborators_def solving_collaborators_def dropping_collaborators_def
  reordering_collaborators_def minimizing_start_def collinear_start_def pointless_start_def
  truncating_collaborators_def scenario_start_def
  scenario_collaborators_def scenario_input_def rectangle_trace_def zigzag_trace_def
  is4PointRectangle_spec_def pt_def first_segment_def no_graphics_def
  collinear_input_def left_trace_def right_trace_def pointless_trace_def pointless_input_def

lemmas controller_defs =
  TraceCleanupSolver_new_def TraceCleanupSolver_step_def runUntangleTracesStep_def
  runMinimizeTurnsStep_def runBalanceLShapesStep_def processTrace_def
  Map_new_def entries_of_def

section \<open>The actions of one step\<close>

lemma step_actions:
  assumes "TraceCleanupSolver_step env s = Inr (ws, s')"
  shows "ws = [SubSolverStep] \<or> ws = [SubSolverStep, SubSolverRetired True] \<or>
         ws = [SubSolverStep, SubSolverRetired False] \<or> ws = [SubSolverInstantiation] \<or>
         ws = [QueueReseed] \<or> ws = [SolvedFlagSet] \<or>
         (\<exists>i. ws = [TracePopped (pipelineStep s) i] \<or>
              ws = [TracePopped (pipelineStep s) i, TransformApplication (pipelineStep s) i])"
proof (cases "activeSubSolver s")
  case (Some sub)
  with assms show ?thesis
    unfolding step_active [OF Some] by (auto split: if_splits)
next
  case None
  show ?thesis
  proof (cases "pipelineStep s")
    case untangling_traces
    with assms None show ?thesis
      by (auto simp: step_untangling runUntangleTracesStep_def)
  next
    case minimizing_turns
    with assms None show ?thesis
      by (auto simp: step_minimizing runMinimizeTurnsStep_def split: if_splits
               elim!: processTrace_Inr)
  next
    case balancing_l_shapes
    with assms None show ?thesis
      by (auto simp: step_balancing runBalanceLShapesStep_def split: if_splits
               elim!: processTrace_Inr)
  qed
qed

lemma transformed_among_popped_step:
  assumes q: "set (transformed_ids p ws1) \<subseteq> set (popped_ids p ws1) \<and>
              (distinct (popped_ids p ws1) \<longrightarrow> distinct (transformed_ids p ws1))"
    and st: "TraceCleanupSolver_step env s1 = Inr (ws2, s2)"
  shows "set (transformed_ids p (ws1 @ ws2)) \<subseteq> set (popped_ids p (ws1 @ ws2)) \<and>
         (distinct (popped_ids p (ws1 @ ws2)) \<longrightarrow> distinct (transformed_ids p (ws1 @ ws2)))"
  using step_actions [OF st] q by (auto split: if_splits)

lemma transformed_among_popped:
  assumes "run env n s0 = Inr (ws, s)"
  shows "set (transformed_ids p ws) \<subseteq> set (popped_ids p ws) \<and>
         (distinct (popped_ids p ws) \<longrightarrow> distinct (transformed_ids p ws))"
  using assms
  by (rule run_invariant [where P = "\<lambda>ws s. set (transformed_ids p ws) \<subseteq> set (popped_ids p ws) \<and>
         (distinct (popped_ids p ws) \<longrightarrow> distinct (transformed_ids p ws))"])
     (simp, rule transformed_among_popped_step)

lemma popped_prefix:
  assumes "pipeline_inv solverInput ws s"
  shows "\<exists>rest. popped_ids p ws @ rest = roster solverInput"
  using assms
  by (cases p; cases "pipelineStep s") (auto simp: pipeline_inv_def)

section \<open>Visitation\<close>

text \<open>
  Claim C9 (exactly-once visitation). For an input whose trace identifiers are pairwise
  distinct, along every run of step calls from the constructor and for each phase, no
  identifier is removed from the queue twice in that phase and none is handed to the
  phase's transform twice; what is transformed was removed from the queue, and what is
  removed is an identifier of the input. A rectangle is removed but not transformed.
\<close>

theorem exactly_once_visitation:
  assumes "distinct (map mspPairId (allTraces solverInput))"
    and "run env n (TraceCleanupSolver_new solverInput) = Inr (ws, s)"
  shows "distinct (popped_ids p ws) \<and> distinct (transformed_ids p ws) \<and>
         set (transformed_ids p ws) \<subseteq> set (popped_ids p ws) \<and>
         set (popped_ids p ws) \<subseteq> set (map mspPairId (allTraces solverInput))"
proof -
  have inv: "pipeline_inv solverInput ws s"
    using assms(2) by (rule pipeline_inv_run)
  then obtain rest where pre: "popped_ids p ws @ rest = map mspPairId (allTraces solverInput)"
    using popped_prefix [of solverInput ws s p] by (auto simp: roster_def)
  have "distinct (popped_ids p ws @ rest)"
    using assms(1) pre by simp
  then have d: "distinct (popped_ids p ws)" by simp
  have "set (popped_ids p ws) \<subseteq> set (popped_ids p ws @ rest)" by simp
  then have sub: "set (popped_ids p ws) \<subseteq> set (map mspPairId (allTraces solverInput))"
    using pre by simp
  from transformed_among_popped [OF assms(2), of p] d sub show ?thesis by blast
qed

theorem exactly_once_visitation_witness:
  "distinct (map mspPairId (allTraces scenario_input)) \<and>
   (\<exists>s. run failing_collaborators 8 (TraceCleanupSolver_new scenario_input) =
          Inr ([SubSolverInstantiation, SubSolverStep, SubSolverRetired False,
                TracePopped minimizing_turns ''r'', TracePopped minimizing_turns ''z'',
                TransformApplication minimizing_turns ''z'', QueueReseed,
                TracePopped balancing_l_shapes ''r'', TracePopped balancing_l_shapes ''z'',
                TransformApplication balancing_l_shapes ''z'', SolvedFlagSet], s)) \<and>
   distinct (popped_ids minimizing_turns
     [SubSolverInstantiation, SubSolverStep, SubSolverRetired False,
      TracePopped minimizing_turns ''r'', TracePopped minimizing_turns ''z'',
      TransformApplication minimizing_turns ''z'', QueueReseed,
      TracePopped balancing_l_shapes ''r'', TracePopped balancing_l_shapes ''z'',
      TransformApplication balancing_l_shapes ''z'', SolvedFlagSet])"
proof -
  have d: "distinct (map mspPairId (allTraces scenario_input))"
    by (simp add: scenario_defs)
  obtain s where r: "run failing_collaborators 8 (TraceCleanupSolver_new scenario_input) =
          Inr ([SubSolverInstantiation, SubSolverStep, SubSolverRetired False,
                TracePopped minimizing_turns ''r'', TracePopped minimizing_turns ''z'',
                TransformApplication minimizing_turns ''z'', QueueReseed,
                TracePopped balancing_l_shapes ''r'', TracePopped balancing_l_shapes ''z'',
                TransformApplication balancing_l_shapes ''z'', SolvedFlagSet], s)"
    by (simp add: eval_nat_numeral scenario_defs controller_defs Let_def)
  from exactly_once_visitation [OF d r, of minimizing_turns] d r show ?thesis by blast
qed


section \<open>Reseeding and phase order\<close>

text \<open>
  Claim C8 (original-roster reseed). Along every run of step calls from the constructor:
  the queue starts as the identifiers of the input traces in input order; when the queue
  is empty in the phase \<^verbatim>\<open>minimizing_turns\<close>, the next step does nothing but move to
  \<^verbatim>\<open>balancing_l_shapes\<close> and set the queue to the identifiers of the input traces again
  (the constructor's input, whatever the sub-solver returned); and in both per-trace
  phases the identifiers removed from the queue so far are an initial segment of that
  list, so the traces are visited in input order.
\<close>

theorem original_roster_reseed:
  assumes "run env n (TraceCleanupSolver_new solverInput) = Inr (ws, s)"
  shows "(pipelineStep s = untangling_traces \<longrightarrow>
            traceIdQueue s = map mspPairId (allTraces solverInput)) \<and>
         (pipelineStep s = minimizing_turns \<and> traceIdQueue s = [] \<longrightarrow>
            TraceCleanupSolver_step env s =
              Inr ([QueueReseed],
                   s\<lparr>pipelineStep := balancing_l_shapes,
                     traceIdQueue := map mspPairId (allTraces solverInput)\<rparr>)) \<and>
         popped_ids minimizing_turns ws =
           take (length (popped_ids minimizing_turns ws)) (map mspPairId (allTraces solverInput)) \<and>
         popped_ids balancing_l_shapes ws =
           take (length (popped_ids balancing_l_shapes ws)) (map mspPairId (allTraces solverInput))"
proof -
  have inv: "pipeline_inv solverInput ws s"
    using assms by (rule pipeline_inv_run)
  have a: "pipelineStep s = untangling_traces \<longrightarrow>
            traceIdQueue s = map mspPairId (allTraces solverInput)"
    using inv by (auto simp: pipeline_inv_def roster_def)
  have b: "pipelineStep s = minimizing_turns \<and> traceIdQueue s = [] \<longrightarrow>
            TraceCleanupSolver_step env s =
              Inr ([QueueReseed],
                   s\<lparr>pipelineStep := balancing_l_shapes,
                     traceIdQueue := map mspPairId (allTraces solverInput)\<rparr>)"
    using inv by (auto simp: pipeline_inv_def step_minimizing runMinimizeTurnsStep_def)
  have c: "popped_ids p ws = take (length (popped_ids p ws)) (map mspPairId (allTraces solverInput))"
    for p
  proof -
    obtain rest where "popped_ids p ws @ rest = map mspPairId (allTraces solverInput)"
      using popped_prefix [OF inv, of p] by (auto simp: roster_def)
    then show ?thesis by (metis append_eq_conv_conj)
  qed
  from a b c [of minimizing_turns] c [of balancing_l_shapes] show ?thesis by blast
qed

theorem original_roster_reseed_witness:
  "\<exists>ws s s'. run reordering_collaborators 4 (TraceCleanupSolver_new scenario_input) = Inr (ws, s) \<and>
     pipelineStep s = minimizing_turns \<and> traceIdQueue s = [] \<and>
     Map_keys (tracesMap s) = [''z'', ''r''] \<and>
     TraceCleanupSolver_step reordering_collaborators s = Inr ([QueueReseed], s') \<and>
     pipelineStep s' = balancing_l_shapes \<and> traceIdQueue s' = [''r'', ''z'']"
proof -
  obtain ws s where r: "run reordering_collaborators 4 (TraceCleanupSolver_new scenario_input) = Inr (ws, s)"
    and f: "pipelineStep s = minimizing_turns" "traceIdQueue s = []"
      "Map_keys (tracesMap s) = [''z'', ''r'']"
    by (simp add: eval_nat_numeral scenario_defs controller_defs Let_def)
  have ids: "map mspPairId (allTraces scenario_input) = [''r'', ''z'']"
    by (simp add: scenario_defs)
  from original_roster_reseed [OF r] f ids
  have "TraceCleanupSolver_step reordering_collaborators s =
          Inr ([QueueReseed], s\<lparr>pipelineStep := balancing_l_shapes, traceIdQueue := [''r'', ''z'']\<rparr>)"
    by simp
  with r f show ?thesis by simp
qed

text \<open>
  Claim C4 (phase ordering). Along every run of step calls from the constructor, a step
  never lowers the phase (untangling, then minimizing, then balancing). A step that
  enters \<^verbatim>\<open>balancing_l_shapes\<close> starts in \<^verbatim>\<open>minimizing_turns\<close> with an empty queue,
  and by then the minimizing phase has removed every input identifier from the queue.
  A step that enters \<^verbatim>\<open>minimizing_turns\<close> starts in \<^verbatim>\<open>untangling_traces\<close> with an
  active sub-solver that reports solved or failed after its step, and leaves the
  sub-solver slot empty; the slot is empty in both per-trace phases.
\<close>

theorem phase_ordering:
  assumes "run env n (TraceCleanupSolver_new solverInput) = Inr (ws, s)"
    and "TraceCleanupSolver_step env s = Inr (ws', s')"
  shows "phase_rank (pipelineStep s) \<le> phase_rank (pipelineStep s') \<and>
         (pipelineStep s' = balancing_l_shapes \<longrightarrow>
            activeSubSolver s' = None \<and>
            popped_ids minimizing_turns (ws @ ws') = map mspPairId (allTraces solverInput) \<and>
            (pipelineStep s \<noteq> balancing_l_shapes \<longrightarrow>
               pipelineStep s = minimizing_turns \<and> traceIdQueue s = [])) \<and>
         (pipelineStep s' = minimizing_turns \<longrightarrow>
            activeSubSolver s' = None \<and>
            (pipelineStep s \<noteq> minimizing_turns \<longrightarrow>
               pipelineStep s = untangling_traces \<and>
               (\<exists>sub. activeSubSolver s = Some sub \<and>
                  (subsolver_solved env (subsolver_step env sub) \<or>
                   subsolver_failed env (subsolver_step env sub)))))"
proof -
  have inv: "pipeline_inv solverInput ws s"
    using assms(1) by (rule pipeline_inv_run)
  have inv': "pipeline_inv solverInput (ws @ ws') s'"
    using inv assms(2) by (rule pipeline_inv_step)
  have after: "pipelineStep s' \<noteq> untangling_traces \<longrightarrow> activeSubSolver s' = None"
    using inv' by (cases "pipelineStep s'") (auto simp: pipeline_inv_def)
  have drained: "pipelineStep s' = balancing_l_shapes \<longrightarrow>
      popped_ids minimizing_turns (ws @ ws') = map mspPairId (allTraces solverInput)"
    using inv' by (auto simp: pipeline_inv_def roster_def)
  show ?thesis
  proof (cases "activeSubSolver s")
    case (Some sub)
    with inv have ph: "pipelineStep s = untangling_traces"
      by (cases "pipelineStep s") (auto simp: pipeline_inv_def)
    from assms(2) ph Some after drained show ?thesis
      unfolding step_active [OF Some] by (auto split: if_splits)
  next
    case None
    show ?thesis
    proof (cases "pipelineStep s")
      case untangling_traces
      with assms(2) None show ?thesis
        by (auto simp: step_untangling runUntangleTracesStep_def)
    next
      case minimizing_turns
      with assms(2) None after drained show ?thesis
        by (auto simp: step_minimizing runMinimizeTurnsStep_def split: if_splits
                 elim!: processTrace_Inr)
    next
      case balancing_l_shapes
      with assms(2) None after drained show ?thesis
        by (auto simp: step_balancing runBalanceLShapesStep_def split: if_splits
                 elim!: processTrace_Inr)
    qed
  qed
qed

theorem phase_ordering_witness:
  "(\<exists>ws s ws' s' sub.
      run failing_collaborators 1 (TraceCleanupSolver_new scenario_input) = Inr (ws, s) \<and>
      TraceCleanupSolver_step failing_collaborators s = Inr (ws', s') \<and>
      pipelineStep s = untangling_traces \<and> pipelineStep s' = minimizing_turns \<and>
      activeSubSolver s = Some sub \<and> activeSubSolver s' = None \<and>
      subsolver_failed failing_collaborators (subsolver_step failing_collaborators sub)) \<and>
   (\<exists>ws s ws' s'.
      run failing_collaborators 4 (TraceCleanupSolver_new scenario_input) = Inr (ws, s) \<and>
      TraceCleanupSolver_step failing_collaborators s = Inr (ws', s') \<and>
      pipelineStep s = minimizing_turns \<and> pipelineStep s' = balancing_l_shapes \<and>
      traceIdQueue s = [] \<and>
      popped_ids minimizing_turns (ws @ ws') = [''r'', ''z''])"
proof -
  obtain ws1 s1 ws1' s1' where r1:
      "run failing_collaborators 1 (TraceCleanupSolver_new scenario_input) = Inr (ws1, s1)"
    and st1: "TraceCleanupSolver_step failing_collaborators s1 = Inr (ws1', s1')"
    and f1: "pipelineStep s1 = untangling_traces" "pipelineStep s1' = minimizing_turns"
    by (simp add: eval_nat_numeral scenario_defs controller_defs Let_def)
  obtain ws2 s2 ws2' s2' where r2:
      "run failing_collaborators 4 (TraceCleanupSolver_new scenario_input) = Inr (ws2, s2)"
    and st2: "TraceCleanupSolver_step failing_collaborators s2 = Inr (ws2', s2')"
    and f2: "pipelineStep s2 = minimizing_turns" "pipelineStep s2' = balancing_l_shapes"
    by (simp add: eval_nat_numeral scenario_defs controller_defs Let_def)
  have ids: "map mspPairId (allTraces scenario_input) = [''r'', ''z'']"
    by (simp add: scenario_defs)
  from phase_ordering [OF r1 st1] f1
  have a: "activeSubSolver s1' = None \<and>
           (\<exists>sub. activeSubSolver s1 = Some sub \<and>
              (subsolver_solved failing_collaborators (subsolver_step failing_collaborators sub) \<or>
               subsolver_failed failing_collaborators (subsolver_step failing_collaborators sub)))"
    by simp
  have nf: "\<not> subsolver_solved failing_collaborators u" for u
    by (simp add: scenario_defs)
  from phase_ordering [OF r2 st2] f2 ids
  have b: "traceIdQueue s2 = [] \<and> popped_ids minimizing_turns (ws2 @ ws2') = [''r'', ''z'']"
    by simp
  from a nf r1 st1 f1 have first: "\<exists>ws s ws' s' sub.
      run failing_collaborators 1 (TraceCleanupSolver_new scenario_input) = Inr (ws, s) \<and>
      TraceCleanupSolver_step failing_collaborators s = Inr (ws', s') \<and>
      pipelineStep s = untangling_traces \<and> pipelineStep s' = minimizing_turns \<and>
      activeSubSolver s = Some sub \<and> activeSubSolver s' = None \<and>
      subsolver_failed failing_collaborators (subsolver_step failing_collaborators sub)"
    by blast
  from b r2 st2 f2 have second: "\<exists>ws s ws' s'.
      run failing_collaborators 4 (TraceCleanupSolver_new scenario_input) = Inr (ws, s) \<and>
      TraceCleanupSolver_step failing_collaborators s = Inr (ws', s') \<and>
      pipelineStep s = minimizing_turns \<and> pipelineStep s' = balancing_l_shapes \<and>
      traceIdQueue s = [] \<and>
      popped_ids minimizing_turns (ws @ ws') = [''r'', ''z'']"
    by blast
  from first second show ?thesis by blast
qed

section \<open>Progress through the phases\<close>

text \<open>Draining a queue whose identifiers are all in the map.\<close>

lemma drain_queue:
  assumes "activeSubSolver s = None" "pipelineStep s = p" "p \<noteq> untangling_traces"
    "set (traceIdQueue s) \<subseteq> set (Map_keys (tracesMap s))"
  shows "\<exists>ws s'. run env (length (traceIdQueue s)) s = Inr (ws, s') \<and> traceIdQueue s' = [] \<and>
           Map_keys (tracesMap s') = Map_keys (tracesMap s) \<and>
           pipelineStep s' = p \<and> activeSubSolver s' = None \<and>
           input s' = input s \<and> solved s' = solved s"
  using assms
proof (induction "traceIdQueue s" arbitrary: s)
  case Nil
  then show ?case by simp
next
  case (Cons i q)
  from Cons.hyps(2) have qs: "traceIdQueue s = i # q" by simp
  with Cons.prems(4) have "i \<in> set (Map_keys (tracesMap s))" by simp
  from processTrace_present [OF qs this, of env p]
  obtain ws1 s1 where pt: "processTrace env p s = Inr (ws1, s1)"
    and f: "traceIdQueue s1 = q" "Map_keys (tracesMap s1) = Map_keys (tracesMap s)"
      "pipelineStep s1 = pipelineStep s" "activeSubSolver s1 = activeSubSolver s"
      "input s1 = input s" "solved s1 = solved s"
    by blast
  have st: "TraceCleanupSolver_step env s = Inr (ws1, s1)"
    using pt Cons.prems(1,2,3) qs
    by (cases p) (simp_all add: step_minimizing runMinimizeTurnsStep_def
                    step_balancing runBalanceLShapesStep_def)
  have "\<exists>ws s'. run env (length (traceIdQueue s1)) s1 = Inr (ws, s') \<and> traceIdQueue s' = [] \<and>
           Map_keys (tracesMap s') = Map_keys (tracesMap s1) \<and>
           pipelineStep s' = p \<and> activeSubSolver s' = None \<and>
           input s' = input s1 \<and> solved s' = solved s1"
    using Cons.hyps(1) [of s1] f Cons.prems qs by simp
  then obtain ws2 s2 where r: "run env (length q) s1 = Inr (ws2, s2)"
    and g: "traceIdQueue s2 = []" "Map_keys (tracesMap s2) = Map_keys (tracesMap s1)"
      "pipelineStep s2 = p" "activeSubSolver s2 = None"
      "input s2 = input s1" "solved s2 = solved s1"
    using f(1) by auto
  have "run env (length (traceIdQueue s)) s = Inr (ws1 @ ws2, s2)"
    using qs st r by simp
  with f g show ?case by simp
qed

lemma run_then:
  assumes "run env m s = Inr (ws, s')" "run env n s' = Inr (ws', s'')"
  shows "run env (m + n) s = Inr (ws @ ws', s'')"
  using assms by (simp add: run_add)

text \<open>From the start of the minimizing phase to the solved flag.\<close>

lemma per_trace_phases_finish:
  assumes "activeSubSolver s = None" "pipelineStep s = minimizing_turns"
    "set (traceIdQueue s) \<subseteq> set (Map_keys (tracesMap s))"
    "set (map mspPairId (allTraces (input s))) \<subseteq> set (Map_keys (tracesMap s))"
  shows "\<exists>ws s'. run env (length (traceIdQueue s) + length (allTraces (input s)) + 2) s = Inr (ws, s')
           \<and> solved s' \<and> pipelineStep s' = balancing_l_shapes"
proof -
  let ?ids = "map mspPairId (allTraces (input s))"
  have ne: "minimizing_turns \<noteq> untangling_traces" "balancing_l_shapes \<noteq> untangling_traces"
    by simp_all
  from drain_queue [OF assms(1,2) ne(1) assms(3), of env]
  obtain ws1 s1 where r1: "run env (length (traceIdQueue s)) s = Inr (ws1, s1)"
    and f1: "traceIdQueue s1 = []" "Map_keys (tracesMap s1) = Map_keys (tracesMap s)"
      "pipelineStep s1 = minimizing_turns" "activeSubSolver s1 = None" "input s1 = input s"
    by blast
  define s2 where "s2 = s1\<lparr>pipelineStep := balancing_l_shapes, traceIdQueue := ?ids\<rparr>"
  have r2: "run env (Suc 0) s1 = Inr ([QueueReseed], s2)"
    unfolding run_1 using f1 by (simp add: step_minimizing runMinimizeTurnsStep_def s2_def)
  have f2: "activeSubSolver s2 = None" "pipelineStep s2 = balancing_l_shapes"
    "set (traceIdQueue s2) \<subseteq> set (Map_keys (tracesMap s2))" "traceIdQueue s2 = ?ids"
    using f1 assms(4) by (simp_all add: s2_def)
  from drain_queue [OF f2(1,2) ne(2) f2(3), of env]
  obtain ws3 s3 where r3: "run env (length (traceIdQueue s2)) s2 = Inr (ws3, s3)"
    and f3: "traceIdQueue s3 = []" "pipelineStep s3 = balancing_l_shapes" "activeSubSolver s3 = None"
    by blast
  have r4: "run env (Suc 0) s3 = Inr ([SolvedFlagSet], s3\<lparr>solved := True\<rparr>)"
    unfolding run_1 using f3 by (simp add: step_balancing runBalanceLShapesStep_def)
  have len: "length (traceIdQueue s2) = length (allTraces (input s))"
    using f2(4) by simp
  have "run env (length (traceIdQueue s) + Suc 0 + length (allTraces (input s)) + Suc 0) s
          = Inr (((ws1 @ [QueueReseed]) @ ws3) @ [SolvedFlagSet], s3\<lparr>solved := True\<rparr>)"
    using run_then [OF run_then [OF run_then [OF r1 r2] r3] r4] len by simp
  moreover have "length (traceIdQueue s) + Suc 0 + length (allTraces (input s)) + Suc 0
      = length (traceIdQueue s) + length (allTraces (input s)) + 2" by simp
  ultimately show ?thesis using f3 by simp
qed

text \<open>The untangling phase ends once the sub-solver reports an outcome.\<close>

lemma funpow_step_shift: "subsolver_after env (Suc j) u = subsolver_after env j (subsolver_step env u)"
  by (simp add: subsolver_after_def funpow_swap1)

lemma untangling_finishes:
  assumes "activeSubSolver s = Some u" "0 < k"
    "subsolver_solved env (subsolver_after env k u) \<or> subsolver_failed env (subsolver_after env k u)"
  shows "\<exists>j ws s'. 0 < j \<and> j \<le> k \<and> run env j s = Inr (ws, s') \<and>
           activeSubSolver s' = None \<and> pipelineStep s' = minimizing_turns \<and>
           traceIdQueue s' = traceIdQueue s \<and> input s' = input s \<and>
           (tracesMap s' = tracesMap s \<or>
            (subsolver_solved env (subsolver_after env j u) \<and>
             tracesMap s' = Map_new (entries_of (subsolver_getOutput env (subsolver_after env j u)))))"
  using assms
proof (induction k arbitrary: s u)
  case 0
  then show ?case by simp
next
  case (Suc k)
  let ?u = "subsolver_step env u"
  have one: "subsolver_after env (Suc 0) u = ?u" by (simp add: subsolver_after_def)
  show ?case
  proof (cases "subsolver_solved env ?u \<or> subsolver_failed env ?u")
    case True
    have "\<exists>ws s'. run env (Suc 0) s = Inr (ws, s') \<and>
           activeSubSolver s' = None \<and> pipelineStep s' = minimizing_turns \<and>
           traceIdQueue s' = traceIdQueue s \<and> input s' = input s \<and>
           (tracesMap s' = tracesMap s \<or>
            (subsolver_solved env (subsolver_after env (Suc 0) u) \<and>
             tracesMap s' = Map_new (entries_of (subsolver_getOutput env (subsolver_after env (Suc 0) u)))))"
      unfolding run_1 step_active [OF Suc.prems(1)] one using True by auto
    then show ?thesis by (metis Suc_leI Suc_le_mono zero_less_Suc le0)
  next
    case False
    define s1 where "s1 = s\<lparr>activeSubSolver := Some ?u\<rparr>"
    have st: "TraceCleanupSolver_step env s = Inr ([SubSolverStep], s1)"
      unfolding step_active [OF Suc.prems(1)] using False by (simp add: s1_def)
    have k: "0 < k"
      using False Suc.prems(3) one by (cases k) auto
    have t: "subsolver_solved env (subsolver_after env k ?u) \<or>
             subsolver_failed env (subsolver_after env k ?u)"
      using Suc.prems(3) by (simp add: funpow_step_shift)
    have a: "activeSubSolver s1 = Some ?u" by (simp add: s1_def)
    from Suc.IH [OF a k t]
    obtain j ws s' where j: "0 < j" "j \<le> k" and r: "run env j s1 = Inr (ws, s')"
      and f: "activeSubSolver s' = None" "pipelineStep s' = minimizing_turns"
        "traceIdQueue s' = traceIdQueue s1" "input s' = input s1"
        "tracesMap s' = tracesMap s1 \<or>
            (subsolver_solved env (subsolver_after env j ?u) \<and>
             tracesMap s' = Map_new (entries_of (subsolver_getOutput env (subsolver_after env j ?u))))"
      by blast
    have r': "run env (Suc j) s = Inr ([SubSolverStep] @ ws, s')"
      using st r by simp
    have "0 < Suc j \<and> Suc j \<le> Suc k \<and> run env (Suc j) s = Inr ([SubSolverStep] @ ws, s') \<and>
           activeSubSolver s' = None \<and> pipelineStep s' = minimizing_turns \<and>
           traceIdQueue s' = traceIdQueue s \<and> input s' = input s \<and>
           (tracesMap s' = tracesMap s \<or>
            (subsolver_solved env (subsolver_after env (Suc j) u) \<and>
             tracesMap s' = Map_new (entries_of (subsolver_getOutput env (subsolver_after env (Suc j) u)))))"
      using j r' f by (simp add: s1_def funpow_step_shift)
    then show ?thesis by blast
  qed
qed

section \<open>Reaching the solved state\<close>

lemma new_fields:
  "input (TraceCleanupSolver_new solverInput) = solverInput"
  "traceIdQueue (TraceCleanupSolver_new solverInput) = map mspPairId (allTraces solverInput)"
  "activeSubSolver (TraceCleanupSolver_new solverInput) = None"
  "pipelineStep (TraceCleanupSolver_new solverInput) = untangling_traces"
  "set (Map_keys (tracesMap (TraceCleanupSolver_new solverInput))) = mspPairId ` set (allTraces solverInput)"
  by (simp_all add: TraceCleanupSolver_new_def Map_keys_new)

lemma first_step_new:
  "run env (Suc 0) (TraceCleanupSolver_new solverInput) =
     Inr ([SubSolverInstantiation],
          (TraceCleanupSolver_new solverInput)\<lparr>activeSubSolver := Some (initial_subsolver env solverInput)\<rparr>)"
  unfolding run_1
  by (simp add: step_untangling runUntangleTracesStep_def TraceCleanupSolver_new_def
        initial_subsolver_def)

text \<open>
  Claim C3 (sub-solver failure resilience). With a sub-solver that reports failed, and
  not solved, in every state: the first two step calls create the sub-solver, step it
  once and retire it without adopting anything, which leaves the constructor's state
  (its trace map, its output traces and its queue) with only the phase changed to
  \<^verbatim>\<open>minimizing_turns\<close>; and after \<open>2 n + 4\<close> step calls, for \<open>n\<close> input traces, the run
  has raised no exception and the solved flag is set.
\<close>

theorem subsolver_failure_resilience:
  fixes env :: "('ip, 'lp, 's, 'g) collaborators"
  assumes "\<forall>u. subsolver_failed env u \<and> \<not> subsolver_solved env u"
  shows "run env 2 (TraceCleanupSolver_new solverInput) =
           Inr ([SubSolverInstantiation, SubSolverStep, SubSolverRetired False],
                (TraceCleanupSolver_new solverInput)\<lparr>pipelineStep := minimizing_turns\<rparr>) \<and>
         (\<exists>ws s. run env (2 * length (allTraces solverInput) + 4) (TraceCleanupSolver_new solverInput)
                   = Inr (ws, s) \<and> solved s)"
proof -
  let ?s0 = "TraceCleanupSolver_new solverInput :: ('ip, 'lp, 's) TraceCleanupSolver"
  let ?s1 = "?s0\<lparr>activeSubSolver := Some (initial_subsolver env solverInput)\<rparr>"
  let ?s2 = "?s0\<lparr>pipelineStep := minimizing_turns\<rparr>"
  have a: "activeSubSolver ?s1 = Some (initial_subsolver env solverInput)" by simp
  have eq: "?s1\<lparr>activeSubSolver := None, pipelineStep := minimizing_turns\<rparr> = ?s2"
    by (simp add: TraceCleanupSolver_new_def)
  have "TraceCleanupSolver_step env ?s1 =
          Inr ([SubSolverStep, SubSolverRetired False],
               ?s1\<lparr>activeSubSolver := None, pipelineStep := minimizing_turns\<rparr>)"
    unfolding step_active [OF a] using assms by simp
  then have st2: "run env (Suc 0) ?s1 = Inr ([SubSolverStep, SubSolverRetired False], ?s2)"
    unfolding run_1 eq .
  have r2: "run env 2 ?s0 = Inr ([SubSolverInstantiation, SubSolverStep, SubSolverRetired False], ?s2)"
    using run_then [OF first_step_new st2] by (simp add: numeral_2_eq_2)
  have q: "traceIdQueue ?s2 = map mspPairId (allTraces solverInput)"
      "input ?s2 = solverInput"
    by (simp_all add: new_fields)
  have "\<exists>ws s'. run env (length (traceIdQueue ?s2) + length (allTraces (input ?s2)) + 2) ?s2 = Inr (ws, s')
           \<and> solved s' \<and> pipelineStep s' = balancing_l_shapes"
    by (rule per_trace_phases_finish) (simp_all add: new_fields)
  then obtain ws s' where
    r: "run env (length (allTraces solverInput) + length (allTraces solverInput) + 2) ?s2 = Inr (ws, s')"
    and sv: "solved s'"
    unfolding q by auto
  have tot: "run env (2 + (length (allTraces solverInput) + length (allTraces solverInput) + 2)) ?s0
          = Inr ([SubSolverInstantiation, SubSolverStep, SubSolverRetired False] @ ws, s')"
    using r2 r by (rule run_then)
  have e: "2 + (length (allTraces solverInput) + length (allTraces solverInput) + 2)
      = 2 * length (allTraces solverInput) + 4" by simp
  have "run env (2 * length (allTraces solverInput) + 4) ?s0
          = Inr ([SubSolverInstantiation, SubSolverStep, SubSolverRetired False] @ ws, s')"
    using tot unfolding e .
  with sv have "\<exists>ws s. run env (2 * length (allTraces solverInput) + 4) ?s0 = Inr (ws, s) \<and> solved s"
    by blast
  with r2 show ?thesis by blast
qed

theorem subsolver_failure_resilience_witness:
  "(\<forall>u. subsolver_failed failing_collaborators u \<and> \<not> subsolver_solved failing_collaborators u) \<and>
   run failing_collaborators 2 (TraceCleanupSolver_new scenario_input) =
     Inr ([SubSolverInstantiation, SubSolverStep, SubSolverRetired False],
          (TraceCleanupSolver_new scenario_input)\<lparr>pipelineStep := minimizing_turns\<rparr>) \<and>
   (\<exists>ws s. run failing_collaborators 8 (TraceCleanupSolver_new scenario_input) = Inr (ws, s) \<and>
      solved s)"
proof -
  have h: "\<forall>u. subsolver_failed failing_collaborators u \<and> \<not> subsolver_solved failing_collaborators u"
    by (simp add: scenario_defs)
  have n: "2 * length (allTraces scenario_input) + 4 = 8"
    by (simp add: scenario_defs)
  from subsolver_failure_resilience [OF h, of scenario_input] h n show ?thesis
    by simp
qed

text \<open>
  Claim C5 (forward progress), as amended. If the sub-solver reports solved or failed
  after some \<open>k > 0\<close> of its steps and, whenever it reports solved, its output holds a
  trace for every identifier of the input, then at most \<open>k + 2 n + 3\<close> step calls, for
  \<open>n\<close> input traces, reach the solved flag with no exception.
\<close>

theorem forward_progress:
  fixes env :: "('ip, 'lp, 's, 'g) collaborators"
  assumes "0 < k"
    and "subsolver_solved env (subsolver_after env k (initial_subsolver env solverInput)) \<or>
         subsolver_failed env (subsolver_after env k (initial_subsolver env solverInput))"
    and "\<forall>j. subsolver_solved env (subsolver_after env j (initial_subsolver env solverInput)) \<longrightarrow>
           set (map mspPairId (allTraces solverInput)) \<subseteq>
           set (map mspPairId
                  (subsolver_getOutput env (subsolver_after env j (initial_subsolver env solverInput))))"
  shows "\<exists>N ws s. N \<le> k + 2 * length (allTraces solverInput) + 3 \<and>
           run env N (TraceCleanupSolver_new solverInput) = Inr (ws, s) \<and> solved s"
proof -
  let ?s0 = "TraceCleanupSolver_new solverInput :: ('ip, 'lp, 's) TraceCleanupSolver"
  let ?u0 = "initial_subsolver env solverInput"
  let ?s1 = "?s0\<lparr>activeSubSolver := Some ?u0\<rparr>"
  let ?n = "length (allTraces solverInput)"
  have a: "activeSubSolver ?s1 = Some ?u0" by simp
  from untangling_finishes [OF a assms(1,2)]
  obtain j ws2 s2 where j: "0 < j" "j \<le> k" and r2: "run env j ?s1 = Inr (ws2, s2)"
    and f: "activeSubSolver s2 = None" "pipelineStep s2 = minimizing_turns"
      "traceIdQueue s2 = traceIdQueue ?s1" "input s2 = input ?s1"
    and m: "tracesMap s2 = tracesMap ?s1 \<or>
            (subsolver_solved env (subsolver_after env j ?u0) \<and>
             tracesMap s2 = Map_new (entries_of (subsolver_getOutput env (subsolver_after env j ?u0))))"
    by blast
  have q: "traceIdQueue s2 = map mspPairId (allTraces solverInput)" "input s2 = solverInput"
    using f by (simp_all add: new_fields)
  have keys: "set (map mspPairId (allTraces solverInput)) \<subseteq> set (Map_keys (tracesMap s2))"
    using m
  proof
    assume "tracesMap s2 = tracesMap ?s1"
    then show ?thesis by (simp add: new_fields)
  next
    assume "subsolver_solved env (subsolver_after env j ?u0) \<and>
             tracesMap s2 = Map_new (entries_of (subsolver_getOutput env (subsolver_after env j ?u0)))"
    then show ?thesis using assms(3) by (simp add: Map_keys_new)
  qed
  have "\<exists>ws s'. run env (length (traceIdQueue s2) + length (allTraces (input s2)) + 2) s2 = Inr (ws, s')
           \<and> solved s' \<and> pipelineStep s' = balancing_l_shapes"
    by (rule per_trace_phases_finish) (use f keys q in simp_all)
  then obtain ws3 s3 where r3: "run env (?n + ?n + 2) s2 = Inr (ws3, s3)" and sv: "solved s3"
    unfolding q by auto
  have "run env (Suc 0 + j + (?n + ?n + 2)) ?s0 = Inr (([SubSolverInstantiation] @ ws2) @ ws3, s3)"
    using run_then [OF run_then [OF first_step_new r2] r3] .
  moreover have "Suc 0 + j + (?n + ?n + 2) \<le> k + 2 * ?n + 3"
    using j by simp
  ultimately show ?thesis using sv by blast
qed

theorem forward_progress_witness:
  "(0::nat) < 2 \<and>
   subsolver_solved solving_collaborators
     (subsolver_after solving_collaborators 2 (initial_subsolver solving_collaborators scenario_input)) \<and>
   (\<forall>j. set (map mspPairId (allTraces scenario_input)) \<subseteq>
         set (map mspPairId (subsolver_getOutput solving_collaborators
           (subsolver_after solving_collaborators j
              (initial_subsolver solving_collaborators scenario_input))))) \<and>
   (\<exists>N ws s. N \<le> 9 \<and>
      run solving_collaborators N (TraceCleanupSolver_new scenario_input) = Inr (ws, s) \<and> solved s)"
proof -
  have snd_after: "snd (subsolver_after solving_collaborators j u) = snd u" for j u
    by (induction j) (simp_all add: subsolver_after_def scenario_defs)
  have h1: "(0::nat) < 2" by simp
  have h2: "subsolver_solved solving_collaborators
     (subsolver_after solving_collaborators 2 (initial_subsolver solving_collaborators scenario_input))"
    by (simp add: subsolver_after_def eval_nat_numeral scenario_defs)
  have h3: "set (map mspPairId (allTraces scenario_input)) \<subseteq>
         set (map mspPairId (subsolver_getOutput solving_collaborators
           (subsolver_after solving_collaborators j
              (initial_subsolver solving_collaborators scenario_input))))" for j
  proof -
    have "subsolver_getOutput solving_collaborators
           (subsolver_after solving_collaborators j
              (initial_subsolver solving_collaborators scenario_input))
        = snd (initial_subsolver solving_collaborators scenario_input)"
      using snd_after [of j "initial_subsolver solving_collaborators scenario_input"]
      by (simp add: solving_collaborators_def scenario_collaborators_def)
    then show ?thesis
      by (simp add: initial_subsolver_def Map_new_def entries_of_def scenario_defs)
  qed
  have n: "2 + 2 * length (allTraces scenario_input) + 3 = 9"
    by (simp add: scenario_defs)
  from forward_progress [of 2 solving_collaborators scenario_input] h1 h2 h3 n
  show ?thesis by simp
qed

text \<open>
  Without the condition on the output the claim fails: a sub-solver that reports solved
  at once and returns no trace leaves the map empty, the third step call looks up the
  first queued identifier, finds nothing and raises, and no run sets the solved flag.
\<close>

theorem forward_progress_counterexample:
  "subsolver_solved dropping_collaborators
     (subsolver_after dropping_collaborators 1 (initial_subsolver dropping_collaborators scenario_input)) \<and>
   run dropping_collaborators 3 (TraceCleanupSolver_new scenario_input) = Inl TypeError \<and>
   \<not> (\<exists>N ws s. run dropping_collaborators N (TraceCleanupSolver_new scenario_input) = Inr (ws, s) \<and>
         solved s)"
proof -
  have r3: "run dropping_collaborators 3 (TraceCleanupSolver_new scenario_input) = Inl TypeError"
    by (simp add: eval_nat_numeral scenario_defs controller_defs Let_def)
  have later: "run dropping_collaborators (3 + m) (TraceCleanupSolver_new scenario_input) = Inl TypeError"
    for m
    unfolding run_add r3 by simp
  have early: "run dropping_collaborators N (TraceCleanupSolver_new scenario_input) = Inr (ws, s) \<Longrightarrow>
      N < 3 \<Longrightarrow> \<not> solved s" for N ws s
  proof -
    assume r: "run dropping_collaborators N (TraceCleanupSolver_new scenario_input) = Inr (ws, s)"
      and "N < 3"
    then consider "N = 0" | "N = 1" | "N = 2" by linarith
    then show "\<not> solved s"
    proof cases
      case 1
      with r show ?thesis by (auto simp: TraceCleanupSolver_new_def)
    next
      case 2
      with r show ?thesis
        by (auto simp: scenario_defs controller_defs Let_def)
    next
      case 3
      with r show ?thesis
        by (auto simp: eval_nat_numeral scenario_defs controller_defs Let_def)
    qed
  qed
  have never: "\<not> (\<exists>N ws s. run dropping_collaborators N (TraceCleanupSolver_new scenario_input) = Inr (ws, s) \<and>
         solved s)"
  proof
    assume "\<exists>N ws s. run dropping_collaborators N (TraceCleanupSolver_new scenario_input) = Inr (ws, s) \<and>
         solved s"
    then obtain N ws s where
      r: "run dropping_collaborators N (TraceCleanupSolver_new scenario_input) = Inr (ws, s)"
      and sv: "solved s" by blast
    show False
    proof (cases "N < 3")
      case True
      with early [OF r] sv show False by simp
    next
      case False
      then have "N = 3 + (N - 3)" by simp
      with later [of "N - 3"] r show False by simp
    qed
  qed
  have sub: "subsolver_solved dropping_collaborators
     (subsolver_after dropping_collaborators 1 (initial_subsolver dropping_collaborators scenario_input))"
    by (simp add: subsolver_after_def scenario_defs)
  from sub r3 never show ?thesis by blast
qed

section \<open>Rectangles\<close>

text \<open>A step with no active sub-solver leaves the map entry of a rectangle as it is.\<close>

lemma rectangle_entry_step:
  assumes "activeSubSolver s = None"
    and "Map_get (tracesMap s) i = Some t" and "is4PointRectangle env (tracePath t)"
    and "TraceCleanupSolver_step env s = Inr (ws, s')"
  shows "Map_get (tracesMap s') i = Some t \<and> TransformApplication p i \<notin> set ws \<and>
         (pipelineStep s \<noteq> untangling_traces \<longrightarrow>
            activeSubSolver s' = None \<and> pipelineStep s' \<noteq> untangling_traces)"
proof (cases "pipelineStep s")
  case untangling_traces
  with assms show ?thesis
    by (auto simp: step_untangling runUntangleTracesStep_def)
next
  case minimizing_turns
  with assms show ?thesis
    by (auto simp: step_minimizing runMinimizeTurnsStep_def Map_get_set split: if_splits
             elim!: processTrace_Inr)
next
  case balancing_l_shapes
  with assms show ?thesis
    by (auto simp: step_balancing runBalanceLShapesStep_def Map_get_set split: if_splits
             elim!: processTrace_Inr)
qed

text \<open>
  Claim C7 (rectangle invariance), as amended. The invariance holds of the two per-trace
  phases, not of the untangling phase. Take a state of the minimizing or the balancing
  phase (no sub-solver active) whose map holds, under an identifier, a trace that the
  rectangle predicate accepts. Then after every run of step calls from that state the
  map holds the same trace under that identifier, and no transform was applied to it;
  and when the identifier heads the queue, the step only removes it from the queue and
  records it as the active trace: the map and the output traces are untouched.
\<close>

theorem rectangle_invariance:
  assumes "activeSubSolver s = None" and "pipelineStep s \<noteq> untangling_traces"
    and "Map_get (tracesMap s) i = Some t" and "is4PointRectangle env (tracePath t)"
  shows "(\<forall>n ws s'. run env n s = Inr (ws, s') \<longrightarrow>
            Map_get (tracesMap s') i = Some t \<and> (\<forall>p. TransformApplication p i \<notin> set ws)) \<and>
         (\<forall>q. traceIdQueue s = i # q \<longrightarrow>
            TraceCleanupSolver_step env s =
              Inr ([TracePopped (pipelineStep s) i],
                   s\<lparr>traceIdQueue := q, activeTraceId := Some i\<rparr>))"
proof -
  have runs: "Map_get (tracesMap s') i = Some t \<and> (\<forall>p. TransformApplication p i \<notin> set ws)"
    if "run env n s = Inr (ws, s')" for n ws s'
  proof -
    let ?P = "\<lambda>ws s'. activeSubSolver s' = None \<and> pipelineStep s' \<noteq> untangling_traces \<and>
                Map_get (tracesMap s') i = Some t \<and> (\<forall>p. TransformApplication p i \<notin> set ws)"
    have "?P ws s'"
      using that
    proof (rule run_invariant [where P = ?P])
      show "?P [] s" using assms by simp
    next
      fix ws1 s1 ws2 s2
      assume "?P ws1 s1" and "TraceCleanupSolver_step env s1 = Inr (ws2, s2)"
      then show "?P (ws1 @ ws2) s2"
        using rectangle_entry_step [of s1 i t env ws2 s2] assms(4) by auto
    qed
    then show ?thesis by simp
  qed
  have skip: "TraceCleanupSolver_step env s =
              Inr ([TracePopped (pipelineStep s) i], s\<lparr>traceIdQueue := q, activeTraceId := Some i\<rparr>)"
    if "traceIdQueue s = i # q" for q
    using that assms
    by (cases "pipelineStep s")
       (simp_all add: step_minimizing step_balancing runMinimizeTurnsStep_def
          runBalanceLShapesStep_def processTrace_def)
  from runs skip show ?thesis by blast
qed

theorem rectangle_invariance_witness:
  "activeSubSolver minimizing_start = None \<and> pipelineStep minimizing_start \<noteq> untangling_traces \<and>
   Map_get (tracesMap minimizing_start) ''r'' = Some rectangle_trace \<and>
   is4PointRectangle failing_collaborators (tracePath rectangle_trace) \<and>
   traceIdQueue minimizing_start = [''r'', ''z''] \<and>
   TraceCleanupSolver_step failing_collaborators minimizing_start =
     Inr ([TracePopped minimizing_turns ''r''],
          minimizing_start\<lparr>traceIdQueue := [''z''], activeTraceId := Some ''r''\<rparr>) \<and>
   (\<exists>s'. run failing_collaborators 6 minimizing_start =
           Inr ([TracePopped minimizing_turns ''r'', TracePopped minimizing_turns ''z'',
                 TransformApplication minimizing_turns ''z'', QueueReseed,
                 TracePopped balancing_l_shapes ''r'', TracePopped balancing_l_shapes ''z'',
                 TransformApplication balancing_l_shapes ''z'', SolvedFlagSet], s') \<and>
         Map_get (tracesMap s') ''r'' = Some rectangle_trace)"
proof -
  have f: "activeSubSolver minimizing_start = None" "pipelineStep minimizing_start \<noteq> untangling_traces"
      "Map_get (tracesMap minimizing_start) ''r'' = Some rectangle_trace"
      "traceIdQueue minimizing_start = [''r'', ''z'']" "pipelineStep minimizing_start = minimizing_turns"
    by (simp_all add: scenario_defs controller_defs)
  have rect: "is4PointRectangle failing_collaborators (tracePath rectangle_trace)"
    by (simp add: scenario_defs)
  obtain s' where r6: "run failing_collaborators 6 minimizing_start =
           Inr ([TracePopped minimizing_turns ''r'', TracePopped minimizing_turns ''z'',
                 TransformApplication minimizing_turns ''z'', QueueReseed,
                 TracePopped balancing_l_shapes ''r'', TracePopped balancing_l_shapes ''z'',
                 TransformApplication balancing_l_shapes ''z'', SolvedFlagSet], s')"
    by (simp add: eval_nat_numeral scenario_defs controller_defs Let_def)
  note th = rectangle_invariance [OF f(1) f(2) f(3) rect]
  from th f have st: "TraceCleanupSolver_step failing_collaborators minimizing_start =
       Inr ([TracePopped minimizing_turns ''r''],
            minimizing_start\<lparr>traceIdQueue := [''z''], activeTraceId := Some ''r''\<rparr>)"
    by simp
  from th r6 have "Map_get (tracesMap s') ''r'' = Some rectangle_trace" by blast
  with f rect st r6 show ?thesis by blast
qed


text \<open>
  The claim as written covers every cleanup phase. The untangling phase adopts the traces
  of a solved sub-solver as they come, with no test for rectangles: with a sub-solver
  that cuts every trace to its first two points, the rectangle of the scenario is in the
  map at construction and has lost two of its four points two step calls later.
\<close>

theorem rectangle_invariance_counterexample:
  "is4PointRectangle truncating_collaborators (tracePath rectangle_trace) \<and>
   Map_get (tracesMap scenario_start) ''r'' = Some rectangle_trace \<and>
   run truncating_collaborators 2 scenario_start =
     Inr ([SubSolverInstantiation, SubSolverStep, SubSolverRetired True],
          scenario_start
            \<lparr>outputTraces := [rectangle_trace\<lparr>tracePath := [pt 0 0, pt 0 10]\<rparr>,
                              zigzag_trace\<lparr>tracePath := [pt 0 20, pt 5 20]\<rparr>],
             tracesMap := [(''r'', rectangle_trace\<lparr>tracePath := [pt 0 0, pt 0 10]\<rparr>),
                           (''z'', zigzag_trace\<lparr>tracePath := [pt 0 20, pt 5 20]\<rparr>)],
             pipelineStep := minimizing_turns\<rparr>) \<and>
   tracePath (rectangle_trace\<lparr>tracePath := [pt 0 0, pt 0 10]\<rparr>) \<noteq> tracePath rectangle_trace"
  by (simp add: eval_nat_numeral scenario_defs controller_defs Let_def)

section \<open>One unit of work per step\<close>

lemma units_of_work_simps [simp]:
  "units_of_work [] = 0"
  "units_of_work (a # ws) = (if is_unit_of_work a then Suc (units_of_work ws) else units_of_work ws)"
  by (simp_all add: units_of_work_def)

lemma step_rectangle_shape:
  assumes "TraceCleanupSolver_step env s = Inr ([TracePopped p i], s')"
  shows "\<exists>t. Map_get (tracesMap s) i = Some t \<and> is4PointRectangle env (tracePath t)"
proof (cases "activeSubSolver s")
  case (Some sub)
  with assms show ?thesis
    unfolding step_active [OF Some] by (auto split: if_splits)
next
  case None
  show ?thesis
  proof (cases "pipelineStep s")
    case untangling_traces
    with assms None show ?thesis
      by (auto simp: step_untangling runUntangleTracesStep_def)
  next
    case minimizing_turns
    with assms None show ?thesis
      by (auto simp: step_minimizing runMinimizeTurnsStep_def split: if_splits
               elim!: processTrace_Inr)
  next
    case balancing_l_shapes
    with assms None show ?thesis
      by (auto simp: step_balancing runBalanceLShapesStep_def split: if_splits
               elim!: processTrace_Inr)
  qed
qed

text \<open>
  Claim C6 (bounded unit of work), as amended. A successful step call performs at most
  one unit of work, a unit being a step of the sub-solver, a call of a transform, the
  creation of the sub-solver, the reseeding of the queue or the setting of the solved
  flag. Its actions are exactly one of: one sub-solver step (followed, in the same call,
  by the retirement of the sub-solver when it then reports solved or failed); the
  removal of one identifier from the queue followed by one transform call on it; the
  removal of one identifier whose trace is a rectangle, with no unit of work at all; or
  one of the three bookkeeping actions alone.
\<close>

theorem bounded_unit_of_work:
  assumes "TraceCleanupSolver_step env s = Inr (ws, s')"
  shows "(ws = [SubSolverStep] \<or> ws = [SubSolverStep, SubSolverRetired True] \<or>
          ws = [SubSolverStep, SubSolverRetired False] \<or> ws = [SubSolverInstantiation] \<or>
          ws = [QueueReseed] \<or> ws = [SolvedFlagSet] \<or>
          (\<exists>i. ws = [TracePopped (pipelineStep s) i, TransformApplication (pipelineStep s) i]) \<or>
          (\<exists>i t. ws = [TracePopped (pipelineStep s) i] \<and> Map_get (tracesMap s) i = Some t \<and>
                 is4PointRectangle env (tracePath t))) \<and>
         units_of_work ws \<le> 1 \<and>
         (units_of_work ws = 0 \<longleftrightarrow> (\<exists>i. ws = [TracePopped (pipelineStep s) i]))"
proof -
  note shapes = step_actions [OF assms]
  have rect: "\<exists>t. Map_get (tracesMap s) i = Some t \<and> is4PointRectangle env (tracePath t)"
    if "ws = [TracePopped (pipelineStep s) i]" for i
    using assms that step_rectangle_shape [of env s "pipelineStep s" i s'] by simp
  from shapes rect show ?thesis by auto
qed

theorem bounded_unit_of_work_witness:
  "TraceCleanupSolver_step failing_collaborators
     (minimizing_start\<lparr>traceIdQueue := [''z''], activeTraceId := Some ''r''\<rparr>) =
     Inr ([TracePopped minimizing_turns ''z'', TransformApplication minimizing_turns ''z''],
          minimizing_start\<lparr>traceIdQueue := [], activeTraceId := Some ''z'',
            tracesMap := [(''r'', rectangle_trace), (''z'', zigzag_trace\<lparr>tracePath := [pt 0 20, pt 5 20]\<rparr>)],
            outputTraces := [rectangle_trace, zigzag_trace\<lparr>tracePath := [pt 0 20, pt 5 20]\<rparr>]\<rparr>) \<and>
   units_of_work [TracePopped minimizing_turns ''z'', TransformApplication minimizing_turns ''z''] \<le> 1"
proof -
  have st: "TraceCleanupSolver_step failing_collaborators
     (minimizing_start\<lparr>traceIdQueue := [''z''], activeTraceId := Some ''r''\<rparr>) =
     Inr ([TracePopped minimizing_turns ''z'', TransformApplication minimizing_turns ''z''],
          minimizing_start\<lparr>traceIdQueue := [], activeTraceId := Some ''z'',
            tracesMap := [(''r'', rectangle_trace), (''z'', zigzag_trace\<lparr>tracePath := [pt 0 20, pt 5 20]\<rparr>)],
            outputTraces := [rectangle_trace, zigzag_trace\<lparr>tracePath := [pt 0 20, pt 5 20]\<rparr>]\<rparr>)"
    by (simp add: scenario_defs controller_defs Let_def)
  from bounded_unit_of_work [OF st] st show ?thesis by blast
qed

text \<open>
  The claim as written asks for exactly one unit in every call; the step that finds the
  rectangle at the head of the queue performs none.
\<close>

theorem bounded_unit_of_work_counterexample:
  "TraceCleanupSolver_step failing_collaborators minimizing_start =
     Inr ([TracePopped minimizing_turns ''r''],
          minimizing_start\<lparr>traceIdQueue := [''z''], activeTraceId := Some ''r''\<rparr>) \<and>
   units_of_work [TracePopped minimizing_turns ''r''] = 0 \<and>
   \<not> (\<forall>s ws s'. TraceCleanupSolver_step failing_collaborators s = Inr (ws, s') \<longrightarrow>
          units_of_work ws = 1)"
proof -
  have st: "TraceCleanupSolver_step failing_collaborators minimizing_start =
     Inr ([TracePopped minimizing_turns ''r''],
          minimizing_start\<lparr>traceIdQueue := [''z''], activeTraceId := Some ''r''\<rparr>)"
    by (simp add: scenario_defs controller_defs Let_def)
  have u: "units_of_work [TracePopped minimizing_turns ''r''] = 0" by simp
  have "\<not> (\<forall>s ws s'. TraceCleanupSolver_step failing_collaborators s = Inr (ws, s') \<longrightarrow>
          units_of_work ws = 1)"
  proof
    assume "\<forall>s ws s'. TraceCleanupSolver_step failing_collaborators s = Inr (ws, s') \<longrightarrow>
          units_of_work ws = 1"
    with st have "units_of_work [TracePopped minimizing_turns ''r''] = 1" by blast
    with u show False by simp
  qed
  with st u show ?thesis by blast
qed

section \<open>Index reads of the visualization accessor\<close>

lemma firstKey_empty: "tracePath t = [] \<Longrightarrow> firstKey t = Inl TypeError"
  by (simp add: firstKey_def)

lemma firstKey_nonempty: "tracePath t \<noteq> [] \<Longrightarrow> \<exists>k. firstKey t = Inr k"
  by (cases "tracePath t") (simp_all add: firstKey_def)

lemma secondKey_nonempty: "tracePath t \<noteq> [] \<Longrightarrow> \<exists>k. secondKey t = Inr k"
  by (cases "tracePath t") (simp_all add: secondKey_def Let_def)

lemma mergeLoop_nonempty:
  assumes "\<And>t. tracePath t \<noteq> [] \<Longrightarrow> \<exists>k. key t = Inr k"
    and "\<forall>t \<in> set ts. tracePath t \<noteq> []"
    and "\<forall>v \<in> set (Map_values m). tracePath v \<noteq> []"
  shows "\<exists>m'. mergeLoop key ts m = Inr m' \<and> (\<forall>v \<in> set (Map_values m'). tracePath v \<noteq> [])"
  using assms(2,3)
proof (induction ts arbitrary: m)
  case Nil
  then show ?case by simp
next
  case (Cons t ts)
  from Cons.prems(1) have ne: "tracePath t \<noteq> []" by simp
  then obtain k where k: "key t = Inr k" using assms(1) by blast
  show ?case
  proof (cases "Map_get m k")
    case None
    have "\<forall>v \<in> set (Map_values (Map_set m k t)). tracePath v \<noteq> []"
      using Map_values_set_subset [of m k t] Cons.prems(2) ne by auto
    from Cons.IH [OF _ this] Cons.prems(1) k None show ?thesis by simp
  next
    case (Some existing)
    let ?u = "existing\<lparr>tracePath := tracePath existing @ drop 1 (tracePath t)\<rparr>"
    have "tracePath existing \<noteq> []"
      using Map_get_in_values [OF Some] Cons.prems(2) by blast
    then have "tracePath ?u \<noteq> []" by simp
    then have "\<forall>v \<in> set (Map_values (Map_set m k ?u)). tracePath v \<noteq> []"
      using Map_values_set_subset [of m k ?u] Cons.prems(2) by auto
    from Cons.IH [OF _ this] Cons.prems(1) k Some show ?thesis by simp
  qed
qed

lemma mergeLoop_firstKey_empty:
  assumes "\<exists>t \<in> set ts. tracePath t = []"
  shows "mergeLoop firstKey ts m = Inl TypeError"
  using assms
proof (induction ts arbitrary: m)
  case Nil
  then show ?case by simp
next
  case (Cons t ts)
  show ?case
  proof (cases "tracePath t = []")
    case True
    then show ?thesis by (simp add: firstKey_empty)
  next
    case False
    then obtain k where k: "firstKey t = Inr k" using firstKey_nonempty by blast
    from False Cons.prems have "\<exists>t \<in> set ts. tracePath t = []" by auto
    then have "mergeLoop firstKey ts m' = Inl TypeError" for m'
      by (rule Cons.IH)
    with k show ?thesis by (simp split: option.splits)
  qed
qed

text \<open>
  Claim C10 (indexing safety of the visualization). With no sub-solver active, the
  accessor reads the first point of every output trace, and the first and the last point
  of every merged trace. If every output trace has at least one point, every read is in
  bounds and the accessor returns; if some output trace has no point, the read of its
  first point fails and the accessor raises.
\<close>

theorem visualize_index_safety:
  assumes "activeSubSolver s = None"
  shows "((\<forall>t \<in> set (outputTraces s). tracePath t \<noteq> []) \<longrightarrow> (\<exists>g s'. visualize env s = Inr (g, s'))) \<and>
         ((\<exists>t \<in> set (outputTraces s). tracePath t = []) \<longrightarrow> visualize env s = Inl TypeError)"
proof (intro conjI impI)
  assume ne: "\<forall>t \<in> set (outputTraces s). tracePath t \<noteq> []"
  have "\<forall>v \<in> set (Map_values ([] :: (string \<times> SolvedTracePath) list)). tracePath v \<noteq> []" by simp
  from mergeLoop_nonempty [of firstKey, OF firstKey_nonempty ne this]
  obtain m1 where m1: "mergeLoop firstKey (outputTraces s) [] = Inr m1"
    and v1: "\<forall>v \<in> set (Map_values m1). tracePath v \<noteq> []" by blast
  have "\<forall>v \<in> set (Map_values ([] :: (string \<times> SolvedTracePath) list)). tracePath v \<noteq> []" by simp
  from mergeLoop_nonempty [of secondKey, OF secondKey_nonempty v1 this]
  obtain m2 where m2: "mergeLoop secondKey (Map_values m1) [] = Inr m2" by blast
  show "\<exists>g s'. visualize env s = Inr (g, s')"
    using assms m1 m2 by (simp add: visualize_def Let_def)
next
  assume "\<exists>t \<in> set (outputTraces s). tracePath t = []"
  then have "mergeLoop firstKey (outputTraces s) [] = Inl TypeError"
    by (rule mergeLoop_firstKey_empty)
  then show "visualize env s = Inl TypeError"
    using assms by (simp add: visualize_def Let_def)
qed


lemmas visualize_defs =
  visualize_def firstKey_def secondKey_def traceLine_def orEmpty_def Math_round_def
  int_to_string_def digit_char_def

lemma nat_to_string_0: "nat_to_string 0 = ''0''"
  by (simp add: nat_to_string.simps digit_char_def)

theorem visualize_index_safety_witness:
  "activeSubSolver collinear_start = None \<and>
   outputTraces collinear_start = [left_trace, right_trace] \<and>
   tracePath left_trace \<noteq> [] \<and> tracePath right_trace \<noteq> [] \<and>
   (\<exists>g s'. visualize failing_collaborators collinear_start = Inr (g, s')) \<and>
   activeSubSolver pointless_start = None \<and>
   outputTraces pointless_start = [left_trace, pointless_trace] \<and>
   tracePath pointless_trace = [] \<and>
   visualize failing_collaborators pointless_start = Inl TypeError"
proof -
  have a: "activeSubSolver collinear_start = None" "activeSubSolver pointless_start = None"
    by (simp_all add: scenario_defs controller_defs)
  have o: "outputTraces collinear_start = [left_trace, right_trace]"
      "outputTraces pointless_start = [left_trace, pointless_trace]"
    by (simp_all add: scenario_defs controller_defs)
  have p: "tracePath left_trace \<noteq> []" "tracePath right_trace \<noteq> []" "tracePath pointless_trace = []"
    by (simp_all add: scenario_defs)
  have b: "\<forall>t \<in> set (outputTraces collinear_start). tracePath t \<noteq> []"
    unfolding o using p by simp
  have c: "\<exists>t \<in> set (outputTraces pointless_start). tracePath t = []"
    unfolding o using p by simp
  from visualize_index_safety [OF a(1), of failing_collaborators] b
  have "\<exists>g s'. visualize failing_collaborators collinear_start = Inr (g, s')" by blast
  moreover from visualize_index_safety [OF a(2), of failing_collaborators] c
  have "visualize failing_collaborators pointless_start = Inl TypeError" by blast
  ultimately show ?thesis using a o p by blast
qed

section \<open>What the visualization accessor does to the state\<close>

text \<open>
  With a sub-solver active the accessor hands over to the sub-solver and leaves the
  controller's own fields alone. In every case it leaves the trace map, the queue, the
  phase and the flags alone: the output traces are the one field it can change.
\<close>

lemma visualize_delegates:
  assumes "activeSubSolver s = Some sub"
  shows "visualize env s =
           Inr (fst (subsolver_visualize env sub),
                s\<lparr>activeSubSolver := Some (snd (subsolver_visualize env sub))\<rparr>)"
  using assms by (simp add: visualize_def split: prod.splits)

lemma visualize_frame:
  assumes "visualize env s = Inr (g, s')"
  shows "tracesMap s' = tracesMap s \<and> traceIdQueue s' = traceIdQueue s \<and>
         pipelineStep s' = pipelineStep s \<and> solved s' = solved s \<and> input s' = input s \<and>
         activeTraceId s' = activeTraceId s \<and>
         (activeSubSolver s \<noteq> None \<longrightarrow> outputTraces s' = outputTraces s)"
  using assms
  by (auto simp: visualize_def Let_def split: option.splits sum.splits prod.splits)

text \<open>
  Claim C1 (the visualization accessor is purely diagnostic) does not hold of the code.
  Right after construction, with two traces of one net that start at the same height,
  one call of the accessor replaces the two output traces by a single merged trace, so
  the result of \<^verbatim>\<open>getOutput()\<close> differs before and after the call. The trace map keeps
  both traces, so the output traces and the map no longer agree.
\<close>

theorem visualize_changes_output:
  "getOutput collinear_start = [left_trace, right_trace] \<and>
   (\<exists>g. visualize failing_collaborators collinear_start =
           Inr (g, collinear_start\<lparr>outputTraces := [left_trace\<lparr>tracePath := [pt 0 0, pt 1 0, pt 2 0]\<rparr>]\<rparr>)) \<and>
   getOutput (collinear_start\<lparr>outputTraces := [left_trace\<lparr>tracePath := [pt 0 0, pt 1 0, pt 2 0]\<rparr>]\<rparr>)
     \<noteq> getOutput collinear_start"
  by (simp add: scenario_defs controller_defs visualize_defs nat_to_string_0 getOutput_def Let_def)

text \<open>
  Claim C2 (identifier stability) does not hold of the code either, for the same reason:
  on the same input, whose identifiers are distinct, the output after one call of the
  accessor carries the identifier \<open>a\<close> only; the trace \<open>b\<close> is dropped.
\<close>

theorem visualize_drops_identifier:
  "distinct (map mspPairId (allTraces collinear_input)) \<and>
   set (map mspPairId (allTraces collinear_input)) = {''a'', ''b''} \<and>
   (\<exists>g s'. visualize failing_collaborators (TraceCleanupSolver_new collinear_input) = Inr (g, s') \<and>
      set (map mspPairId (getOutput s')) = {''a''})"
  by (simp add: scenario_defs controller_defs visualize_defs nat_to_string_0 getOutput_def Let_def)

text \<open>
  The step function by itself keeps the identifiers, provided the collaborators keep
  theirs: each transform returns a trace with the identifier it was asked about, and the
  sub-solver, when solved, returns traces with exactly the identifiers of the input.
\<close>

lemma ids_of_values_set:
  assumes "map mspPairId (Map_values m) = Map_keys m" "mspPairId v = k"
  shows "map mspPairId (Map_values (Map_set m k v)) = Map_keys (Map_set m k v)"
  using assms by (induction m) auto

lemma ids_of_values_fill:
  assumes "map mspPairId (Map_values m) = Map_keys m"
  shows "map mspPairId (Map_values (Map_fill m (entries_of ts))) = Map_keys (Map_fill m (entries_of ts))"
  using assms
proof (induction ts arbitrary: m)
  case Nil
  then show ?case by (simp add: entries_of_def)
next
  case (Cons t ts)
  have "map mspPairId (Map_values (Map_set m (mspPairId t) t)) = Map_keys (Map_set m (mspPairId t) t)"
    using Cons.prems by (rule ids_of_values_set) simp
  from Cons.IH [OF this] show ?case by (simp add: entries_of_def)
qed

lemma ids_of_values_new:
  "map mspPairId (Map_values (Map_new (entries_of ts))) = Map_keys (Map_new (entries_of ts))"
  unfolding Map_new_def by (rule ids_of_values_fill) simp

lemma ids_stable_step:
  assumes c1: "\<And>inp i ts. mspPairId (minimizeTurnsWithFilteredLabels env inp i ts) = i"
    and c2: "\<And>inp i ts. mspPairId (balanceZShapes env inp i ts) = i"
    and c3: "\<And>u. subsolver_solved env u \<Longrightarrow>
               set (map mspPairId (subsolver_getOutput env u)) = set (map mspPairId (allTraces solverInput))"
    and inv: "ids_stable solverInput s"
    and st: "TraceCleanupSolver_step env s = Inr (ws, s')"
  shows "ids_stable solverInput s'"
proof (cases "activeSubSolver s")
  case (Some sub)
  from st inv c3 [of "subsolver_step env sub"] show ?thesis
    unfolding step_active [OF Some]
    by (auto simp: ids_stable_def Map_keys_new ids_of_values_new split: if_splits)
next
  case None
  have pt: "ids_stable solverInput s'" if "processTrace env p s = Inr (ws, s')" for p
    using that
  proof (rule processTrace_Inr)
    fix i q t
    assume "s' = s\<lparr>traceIdQueue := q, activeTraceId := Some i\<rparr>"
    with inv show ?thesis by (simp add: ids_stable_def)
  next
    fix i q t u
    assume g: "Map_get (tracesMap s) i = Some t"
      and s': "s' = s\<lparr>traceIdQueue := q, activeTraceId := Some i,
            tracesMap := Map_set (tracesMap s) i u,
            outputTraces := Map_values (Map_set (tracesMap s) i u)\<rparr>"
      and u: "u = (if p = minimizing_turns
          then minimizeTurnsWithFilteredLabels env (input s) i (Map_values (tracesMap s))
          else balanceZShapes env (input s) i (Map_values (tracesMap s)))"
    have id: "mspPairId u = i" using u c1 c2 by simp
    have mem: "i \<in> set (Map_keys (tracesMap s))"
      using g Map_get_None_iff [of "tracesMap s" i] by auto
    have k: "Map_keys (Map_set (tracesMap s) i u) = Map_keys (tracesMap s)"
      using mem by (rule Map_keys_set_present)
    have v: "map mspPairId (Map_values (Map_set (tracesMap s) i u)) = Map_keys (Map_set (tracesMap s) i u)"
      using inv id by (intro ids_of_values_set) (simp_all add: ids_stable_def)
    from inv k v show ?thesis
      unfolding s' by (simp add: ids_stable_def)
  qed
  show ?thesis
  proof (cases "pipelineStep s")
    case untangling_traces
    with st None inv show ?thesis
      by (auto simp: step_untangling runUntangleTracesStep_def ids_stable_def)
  next
    case minimizing_turns
    with st None inv pt show ?thesis
      by (auto simp: step_minimizing runMinimizeTurnsStep_def ids_stable_def split: if_splits)
  next
    case balancing_l_shapes
    with st None inv pt show ?thesis
      by (auto simp: step_balancing runBalanceLShapesStep_def ids_stable_def split: if_splits)
  qed
qed

lemma identifier_stability_of_steps:
  assumes "\<And>inp i ts. mspPairId (minimizeTurnsWithFilteredLabels env inp i ts) = i"
    and "\<And>inp i ts. mspPairId (balanceZShapes env inp i ts) = i"
    and "\<And>u. subsolver_solved env u \<Longrightarrow>
           set (map mspPairId (subsolver_getOutput env u)) = set (map mspPairId (allTraces solverInput))"
    and "run env n (TraceCleanupSolver_new solverInput) = Inr (ws, s)"
  shows "set (map mspPairId (getOutput s)) = set (map mspPairId (allTraces solverInput))"
proof -
  have "ids_stable solverInput s"
    using assms(4)
  proof (rule run_invariant [where P = "\<lambda>ws s. ids_stable solverInput s"])
    show "ids_stable solverInput (TraceCleanupSolver_new solverInput)"
      by (simp add: ids_stable_def TraceCleanupSolver_new_def Map_keys_new ids_of_values_new)
  next
    fix ws1 s1 ws2 s2
    assume "ids_stable solverInput s1" "TraceCleanupSolver_step env s1 = Inr (ws2, s2)"
    with assms(1-3) show "ids_stable solverInput s2" by (rule ids_stable_step)
  qed
  then show ?thesis by (simp add: ids_stable_def getOutput_def)
qed

end
